theory Spec2Isabelle
  imports Main "HOL-Library.Multiset" "HOL-Library.Product_Lexorder"
begin

section \<open>Data model\<close>

text \<open>
  A van is the pair (capacity, fuel per unit distance); a package is the triple
  (pickup, delivery, weight); a move of a route is (location, action, weight) with the
  action one of the strings start, pick, drop, end. Python's integers are unbounded, so
  locations, weights, distances and fuel are \<open>int\<close>. Python compares tuples
  lexicographically, which is the order \<open>HOL-Library.Product_Lexorder\<close> puts on pairs.
\<close>

type_synonym van = "int \<times> int"
type_synonym package = "int \<times> int \<times> int"
type_synonym move = "int \<times> string \<times> int"

datatype error = IndexError | ValueError | StopIteration

definition distance :: "int \<Rightarrow> int \<Rightarrow> int" where
  "distance a b = \<bar>a - b\<bar>"

section \<open>The binary heap of Python's heapq\<close>

text \<open>
  The router calls \<open>heapq.heapify\<close> and \<open>heapq.heappop\<close> of the standard library. They
  work on a list that stores a binary tree by index: the children of position \<open>k\<close> are
  at \<open>2k+1\<close> and \<open>2k+2\<close>. The definitions below follow the library's algorithm: the
  helper \<open>_siftup\<close> moves the smaller child up until a leaf is reached, puts the item
  there, and lets \<open>_siftdown\<close> move it back towards the start position.
  The helpers are only called at positions inside the list. Tuples are totally
  ordered, so the sequence of popped elements does not depend on how the heap is laid
  out in the list.
\<close>

function siftdown_loop :: "'a::linorder list \<Rightarrow> nat \<Rightarrow> nat \<Rightarrow> 'a \<Rightarrow> 'a list \<times> nat" where
  "siftdown_loop heap startpos pos newitem =
     (if pos > startpos then
        (if newitem < heap ! ((pos - 1) div 2)
         then siftdown_loop (heap[pos := heap ! ((pos - 1) div 2)]) startpos ((pos - 1) div 2) newitem
         else (heap, pos))
      else (heap, pos))"
  by pat_completeness auto
termination
  by (relation "measure (\<lambda>(heap, startpos, pos, newitem). pos)") auto

definition siftdown :: "'a::linorder list \<Rightarrow> nat \<Rightarrow> nat \<Rightarrow> 'a list" where
  "siftdown heap startpos pos =
     (let newitem = heap ! pos in
      case siftdown_loop heap startpos pos newitem of
        (heap', pos') \<Rightarrow> heap'[pos' := newitem])"

definition smaller_child :: "'a::linorder list \<Rightarrow> nat \<Rightarrow> nat" where
  "smaller_child heap childpos =
     (if childpos + 1 < length heap \<and> \<not> heap ! childpos < heap ! (childpos + 1)
      then childpos + 1 else childpos)"

function siftup_loop :: "'a::linorder list \<Rightarrow> nat \<Rightarrow> 'a list \<times> nat" where
  "siftup_loop heap pos =
     (if 2 * pos + 1 < length heap then
        siftup_loop (heap[pos := heap ! smaller_child heap (2 * pos + 1)])
                    (smaller_child heap (2 * pos + 1))
      else (heap, pos))"
  by pat_completeness auto
termination
  by (relation "measure (\<lambda>(heap, pos). length heap - pos)")
     (auto simp: smaller_child_def)

definition siftup :: "'a::linorder list \<Rightarrow> nat \<Rightarrow> 'a list" where
  "siftup heap pos =
     (let newitem = heap ! pos in
      case siftup_loop heap pos of
        (heap', pos') \<Rightarrow> siftdown (heap'[pos' := newitem]) pos pos')"

definition heapify :: "'a::linorder list \<Rightarrow> 'a list" where
  "heapify x = fold (\<lambda>i heap. siftup heap i) (rev [0..<length x div 2]) x"

definition heappop :: "'a::linorder list \<Rightarrow> error + ('a \<times> 'a list)" where
  "heappop heap =
     (if heap = [] then Inl IndexError
      else if butlast heap \<noteq> []
        then Inr (butlast heap ! 0, siftup ((butlast heap)[0 := last heap]) 0)
        else Inr (last heap, []))"

text \<open>The comprehension \<open>[heappop(heap) for _ in range(n)]\<close>: pops \<open>n\<close> times.\<close>

fun heappop_times :: "nat \<Rightarrow> 'a::linorder list \<Rightarrow> error + ('a list \<times> 'a list)" where
  "heappop_times 0 heap = Inr ([], heap)"
| "heappop_times (Suc n) heap =
     (case heappop heap of
        Inl e \<Rightarrow> Inl e
      | Inr (x, heap') \<Rightarrow>
          (case heappop_times n heap' of
             Inl e \<Rightarrow> Inl e
           | Inr (xs, heap'') \<Rightarrow> Inr (x # xs, heap'')))"

section \<open>VanRouter\<close>

record router =
  van_capacity :: int
  fuel_per_unit :: int
  route :: "move list"
  current_location :: int
  total_distance :: int
  total_fuel :: int
  current_load :: int
  picked_up_packages :: nat
  delivered_packages :: nat
  pickups :: "(int \<times> int) list"
  deliveries :: "(int \<times> int) list"
  not_completed :: "package list"
  packages :: "package list"

text \<open>\<open>VanRouter.__init__\<close>: the window of the five closest packages.\<close>

definition VanRouter :: "van \<Rightarrow> package list \<Rightarrow> error + router" where
  "VanRouter van_stats pkgs =
     (let heap = heapify (map (\<lambda>p. (distance 0 (fst p), p)) pkgs) in
      case heappop_times (min 5 (length heap)) heap of
        Inl e \<Rightarrow> Inl e
      | Inr (popped, heap') \<Rightarrow>
          Inr \<lparr> van_capacity = fst van_stats,
                fuel_per_unit = snd van_stats,
                route = [(0, ''start'', 0)],
                current_location = 0,
                total_distance = 0,
                total_fuel = 0,
                current_load = 0,
                picked_up_packages = 0,
                delivered_packages = 0,
                pickups = map (\<lambda>p. (fst p, snd (snd p))) (map snd popped),
                deliveries = [],
                not_completed = map snd heap',
                packages = map snd popped \<rparr>)"

text \<open>\<open>heappop(h) if h else None\<close>\<close>

definition nearest :: "'a::linorder list \<Rightarrow> error + 'a option" where
  "nearest heap =
     (if heap \<noteq> [] then
        (case heappop heap of Inl e \<Rightarrow> Inl e | Inr (x, heap') \<Rightarrow> Inr (Some x))
      else Inr None)"

definition pickup_heap :: "router \<Rightarrow> (int \<times> int \<times> int) list" where
  "pickup_heap st =
     heapify (map (\<lambda>(loc, weight). (distance (current_location st) loc, loc, weight))
               (filter (\<lambda>(loc, weight). current_load st + weight \<le> van_capacity st)
                 (pickups st)))"

definition delivery_heap :: "router \<Rightarrow> (int \<times> int \<times> int) list" where
  "delivery_heap st =
     heapify (map (\<lambda>(loc, weight). (distance (current_location st) loc, loc, weight))
               (deliveries st))"

definition find_nearest_valid_move ::
    "router \<Rightarrow> error + (int \<times> int \<times> string \<times> int) option" where
  "find_nearest_valid_move st =
     (case nearest (pickup_heap st) of
        Inl e \<Rightarrow> Inl e
      | Inr nearest_pickup \<Rightarrow>
          (case nearest (delivery_heap st) of
             Inl e \<Rightarrow> Inl e
           | Inr nearest_delivery \<Rightarrow>
               Inr (case nearest_pickup of
                      Some (pd, pl, pw) \<Rightarrow>
                        (case nearest_delivery of
                           None \<Rightarrow> Some (pd, pl, ''pick'', pw)
                         | Some (dd, dl, dw) \<Rightarrow>
                             if pd \<le> dd then Some (pd, pl, ''pick'', pw)
                             else Some (dd, dl, ''drop'', dw))
                    | None \<Rightarrow>
                        (case nearest_delivery of
                           None \<Rightarrow> None
                         | Some (dd, dl, dw) \<Rightarrow> Some (dd, dl, ''drop'', dw)))))"

text \<open>
  The body of the loop of \<open>construct_route\<close> once a move is found. \<open>list.remove\<close> raises
  ValueError when the element is absent, and \<open>next\<close> raises StopIteration when no
  package has the pickup location.
\<close>

definition apply_move :: "router \<Rightarrow> int \<times> int \<times> string \<times> int \<Rightarrow> error + router" where
  "apply_move st move =
     (case move of (dist, loc, action, weight) \<Rightarrow>
        let st1 = st \<lparr> total_distance := total_distance st + dist,
                       total_fuel := total_fuel st + dist * fuel_per_unit st,
                       route := route st @ [(loc, action, weight)],
                       current_location := loc \<rparr>
        in if action = ''pick'' then
             (if (loc, weight) \<notin> set (pickups st1) then Inl ValueError
              else case find (\<lambda>(p, d, w). p = loc) (packages st1) of
                     None \<Rightarrow> Inl StopIteration
                   | Some (p, delivery_loc, w) \<Rightarrow>
                       Inr (st1 \<lparr> current_load := current_load st1 + weight,
                                  pickups := remove1 (loc, weight) (pickups st1),
                                  deliveries := deliveries st1 @ [(delivery_loc, weight)],
                                  picked_up_packages := picked_up_packages st1 + 1 \<rparr>))
           else
             (if (loc, weight) \<notin> set (deliveries st1) then Inl ValueError
              else Inr (st1 \<lparr> current_load := current_load st1 - weight,
                              deliveries := remove1 (loc, weight) (deliveries st1),
                              delivered_packages := delivered_packages st1 + 1 \<rparr>)))"

definition pending :: "router \<Rightarrow> package list" where
  "pending st = map (\<lambda>(loc, weight). (loc, loc, weight)) (pickups st)
              @ map (\<lambda>(loc, weight). (loc, loc, weight)) (deliveries st)"

definition active :: "router \<Rightarrow> bool" where
  "active st \<longleftrightarrow> (pickups st \<noteq> [] \<or> deliveries st \<noteq> [])
                 \<and> picked_up_packages st + delivered_packages st < 10"

definition give_up :: "router \<Rightarrow> router" where
  "give_up st = st \<lparr> not_completed := not_completed st @ pending st \<rparr>"

definition return_to_depot :: "router \<Rightarrow> router" where
  "return_to_depot st =
     st \<lparr> total_distance := total_distance st + distance (current_location st) 0,
          total_fuel := total_fuel st + distance (current_location st) 0 * fuel_per_unit st,
          route := route st @ [(0, ''end'', 0)],
          not_completed := not_completed st @ pending st \<rparr>"

definition result :: "router \<Rightarrow> (int \<times> int \<times> move list) \<times> router" where
  "result st = ((total_distance st, total_fuel st, route st), st)"

text \<open>
  \<open>construct_route\<close> returns the triple (total distance, total fuel, route); the router
  it has mutated is returned with it, since the callers read \<open>picked_up_packages\<close>
  and \<open>not_completed\<close> from it afterwards.
\<close>

function construct_route :: "router \<Rightarrow> error + ((int \<times> int \<times> move list) \<times> router)" where
  "construct_route st =
     (if active st then
        (case find_nearest_valid_move st of
           Inl e \<Rightarrow> Inl e
         | Inr None \<Rightarrow> Inr (result (give_up st))
         | Inr (Some move) \<Rightarrow>
             (case apply_move st move of
                Inl e \<Rightarrow> Inl e
              | Inr st' \<Rightarrow> construct_route st'))
      else Inr (result (return_to_depot st)))"
  by pat_completeness auto
termination
  by (relation "measure (\<lambda>st. 10 - (picked_up_packages st + delivered_packages st))")
     (auto simp: active_def apply_move_def Let_def
           split: prod.splits if_splits option.splits)

text \<open>
  The state of the router after \<open>n\<close> iterations of the loop of \<open>construct_route\<close>,
  when the loop runs that long.
\<close>

fun after_iterations :: "nat \<Rightarrow> router \<Rightarrow> router option" where
  "after_iterations 0 st = Some st"
| "after_iterations (Suc n) st =
     (if active st then
        (case find_nearest_valid_move st of
           Inl e \<Rightarrow> None
         | Inr None \<Rightarrow> None
         | Inr (Some move) \<Rightarrow>
             (case apply_move st move of
                Inl e \<Rightarrow> None
              | Inr st' \<Rightarrow> after_iterations n st'))
      else None)"

section \<open>The optimizers\<close>

text \<open>
  \<open>filter_invalid_input\<close>: the \<open>isinstance\<close> tests hold by typing here; the warnings
  logged for the rejected packages are not part of the returned value.
\<close>

definition valid_van :: "van \<Rightarrow> bool" where
  "valid_van v \<longleftrightarrow> (case v of (capacity, fuel) \<Rightarrow> capacity > 0 \<and> fuel > 0)"

definition valid_package :: "package \<Rightarrow> bool" where
  "valid_package p \<longleftrightarrow> (case p of (pickup, delivery, weight) \<Rightarrow> weight > 0 \<and> pickup \<noteq> delivery)"

definition filter_invalid_input :: "van list \<Rightarrow> package list \<Rightarrow> van list \<times> package list" where
  "filter_invalid_input van_stats pkgs = (filter valid_van van_stats, filter valid_package pkgs)"

text \<open>
  The loop over the vans of \<open>find_optimal_route_for_single_van\<close>. The five variables
  \<open>best_van\<close>, \<open>best_distance\<close>, \<open>best_fuel\<close>, \<open>best_route\<close>, \<open>best_not_completed\<close> are
  assigned together, so they are one optional tuple: \<open>None\<close> stands for the initial
  values, where \<open>best_fuel\<close> is infinite and every fuel is below it.
\<close>

type_synonym best = "(van \<times> int \<times> int \<times> move list \<times> package list) option"

definition attempt :: "van \<Rightarrow> package list \<Rightarrow> error + ((int \<times> int \<times> move list) \<times> router)" where
  "attempt van pkgs =
     (case VanRouter van pkgs of
        Inl e \<Rightarrow> Inl e
      | Inr router \<Rightarrow> construct_route router)"

fun try_vans :: "van list \<Rightarrow> package list \<Rightarrow> best \<Rightarrow> error + best" where
  "try_vans [] pkgs best = Inr best"
| "try_vans (van # vans) pkgs best =
     (case attempt van pkgs of
        Inl e \<Rightarrow> Inl e
      | Inr ((dist, fuel, rt), router') \<Rightarrow>
          try_vans vans pkgs
            (if (case best of None \<Rightarrow> True
                            | Some (bv, bd, best_fuel, br, bn) \<Rightarrow> fuel < best_fuel)
                \<and> picked_up_packages router' > 0
             then Some (van, dist, fuel, rt, not_completed router')
             else best))"

type_synonym single_result = "van option \<times> int \<times> int \<times> move list \<times> package list"

definition find_optimal_route_for_single_van ::
    "van list \<Rightarrow> package list \<Rightarrow> error + single_result" where
  "find_optimal_route_for_single_van van_stats0 packages0 =
     (case filter_invalid_input van_stats0 packages0 of (van_stats, pkgs) \<Rightarrow>
        if pkgs = [] then
          (if van_stats \<noteq> []
           then Inr (Some (van_stats ! 0), 0, 0, [(0, ''start'', 0), (0, ''end'', 0)], [])
           else Inr (None, 0, 0, [], []))
        else
          (case try_vans van_stats pkgs None of
             Inl e \<Rightarrow> Inl e
           | Inr None \<Rightarrow> Inr (None, 0, 0, [], pkgs)
           | Inr (Some (best_van, best_distance, best_fuel, best_route, best_not_completed)) \<Rightarrow>
               if best_route \<noteq> []
               then Inr (Some best_van, best_distance, best_fuel, best_route, best_not_completed)
               else Inr (None, 0, 0, [], pkgs)))"

text \<open>
  \<open>find_optimal_route_for_multiple_vans\<close>: the state of its loop. The remaining
  packages are not returned by the function; they are what its final warning logs.
\<close>

record allocation =
  vans_used :: "van list"
  sum_distance :: int
  sum_fuel :: int
  routes :: "move list list"
  remaining_packages :: "package list"

fun allocate :: "van list \<Rightarrow> allocation \<Rightarrow> error + allocation" where
  "allocate [] st = Inr st"
| "allocate (van # vans) st =
     (if remaining_packages st = [] then Inr st
      else
        (case find_optimal_route_for_single_van [van] (remaining_packages st) of
           Inl e \<Rightarrow> Inl e
         | Inr (None, dist, fuel, rt, best_not_completed) \<Rightarrow> Inr st
         | Inr (Some best_van, dist, fuel, rt, best_not_completed) \<Rightarrow>
             allocate vans
               (st \<lparr> vans_used := vans_used st @ [best_van],
                      sum_distance := sum_distance st + dist,
                      sum_fuel := sum_fuel st + fuel,
                      routes := routes st @ [rt],
                      remaining_packages := best_not_completed \<rparr>)))"

definition top_vans :: "van list \<Rightarrow> van list" where
  "top_vans van_stats = take 3 (sort_key snd van_stats)"

definition multiple_vans_loop :: "van list \<Rightarrow> package list \<Rightarrow> error + allocation" where
  "multiple_vans_loop van_stats0 packages0 =
     (case filter_invalid_input van_stats0 packages0 of (van_stats, pkgs) \<Rightarrow>
        allocate (top_vans van_stats)
          \<lparr> vans_used = [], sum_distance = 0, sum_fuel = 0, routes = [],
            remaining_packages = pkgs \<rparr>)"

definition find_optimal_route_for_multiple_vans ::
    "van list \<Rightarrow> package list \<Rightarrow> error + (van list \<times> int \<times> int \<times> move list list)" where
  "find_optimal_route_for_multiple_vans van_stats0 packages0 =
     (case multiple_vans_loop van_stats0 packages0 of
        Inl e \<Rightarrow> Inl e
      | Inr st \<Rightarrow> Inr (vans_used st, sum_distance st, sum_fuel st, routes st))"

section \<open>The heap invariant\<close>

text \<open>
  Position \<open>p\<close> is \<open>s\<close> or lies below it in the tree. The list is a heap from \<open>s\<close>
  on when every position whose parent is at \<open>s\<close> or later is not smaller than its
  parent. The two weaker invariants hold while an item travels: \<open>hole_down\<close> during
  the first loop of \<open>_siftup\<close>, where the positions below the start are still
  unchecked, and \<open>hole_up\<close> during \<open>_siftdown\<close>, where the item \<open>x\<close> is to be placed at
  \<open>p\<close> and may still be smaller than the parent of \<open>p\<close>.
\<close>

inductive desc :: "nat \<Rightarrow> nat \<Rightarrow> bool" for s :: nat where
  self: "desc s s"
| left: "desc s p \<Longrightarrow> desc s (2 * p + 1)"
| right: "desc s p \<Longrightarrow> desc s (2 * p + 2)"

definition heap_from :: "nat \<Rightarrow> 'a::linorder list \<Rightarrow> bool" where
  "heap_from s h \<longleftrightarrow>
     (\<forall>j. 0 < j \<and> j < length h \<and> s \<le> (j - 1) div 2 \<longrightarrow> h ! ((j - 1) div 2) \<le> h ! j)"

definition hole_down :: "nat \<Rightarrow> 'a::linorder list \<Rightarrow> nat \<Rightarrow> bool" where
  "hole_down s h p \<longleftrightarrow>
     (\<forall>j. 0 < j \<and> j < length h \<and> s \<le> (j - 1) div 2 \<and> ((j - 1) div 2 = p \<longrightarrow> p \<noteq> s)
          \<longrightarrow> h ! ((j - 1) div 2) \<le> h ! j)"

definition hole_up :: "nat \<Rightarrow> 'a::linorder \<Rightarrow> 'a list \<Rightarrow> nat \<Rightarrow> bool" where
  "hole_up s x g p \<longleftrightarrow>
     (\<forall>j. 0 < j \<and> j < length g \<and> s \<le> (j - 1) div 2 \<and> j \<noteq> p
          \<longrightarrow> (g[p := x]) ! ((j - 1) div 2) \<le> (g[p := x]) ! j)
     \<and> (p \<noteq> s \<longrightarrow>
          (\<forall>j. 0 < j \<and> j < length g \<and> (j - 1) div 2 = p \<longrightarrow> g ! ((p - 1) div 2) \<le> g ! j))"

text \<open>
  The packages in ascending order of the pair (distance of the pickup from the depot,
  package), and, in the words of the specification, the window of the five packages
  closest to the depot with ties in the order of the input.
\<close>

definition closest_first :: "package list \<Rightarrow> package list" where
  "closest_first pkgs = map snd (sort (map (\<lambda>p. (distance 0 (fst p), p)) pkgs))"

definition window_by_insertion :: "package list \<Rightarrow> package list" where
  "window_by_insertion pkgs = take 5 (sort_key (\<lambda>p. distance 0 (fst p)) pkgs)"

definition tied_packages :: "package list" where
  "tied_packages = [(0, 1, 1), (0, 2, 1), (0, 3, 1), (0, 4, 1), (1, 2, 1), (- 1, 2, 1)]"

section \<open>Properties of routes and router states\<close>

text \<open>
  Every pending pickup location is the pickup location of a package of the window, so
  that the lookup of the delivery location finds one.
\<close>

definition well_formed :: "router \<Rightarrow> bool" where
  "well_formed st \<longleftrightarrow> fst ` set (pickups st) \<subseteq> fst ` set (packages st)"

text \<open>Every pending pickup and delivery has a positive weight.\<close>

definition positive_weights :: "router \<Rightarrow> bool" where
  "positive_weights st \<longleftrightarrow>
     (\<forall>x \<in> set (pickups st). 0 < snd x) \<and> (\<forall>x \<in> set (deliveries st). 0 < snd x)"

text \<open>
  The cumulative load after a sequence of moves: the weights picked minus the weights
  dropped.
\<close>

definition load_change :: "move \<Rightarrow> int" where
  "load_change m =
     (case m of (loc, action, weight) \<Rightarrow>
        if action = ''pick'' then weight else if action = ''drop'' then - weight else 0)"

definition cumulative_load :: "move list \<Rightarrow> int" where
  "cumulative_load rt = sum_list (map load_change rt)"

text \<open>The weights of the packages dropped along a route.\<close>

definition dropped_weights :: "move list \<Rightarrow> int list" where
  "dropped_weights rt = map (\<lambda>m. snd (snd m)) (filter (\<lambda>m. fst (snd m) = ''drop'') rt)"

text \<open>
  The projections of a package and the picks and drops of a route as (location, weight)
  pairs. A package that stays pending is written into the not-completed list as the
  triple \<open>self_referential\<close>. \<open>split_of\<close> and \<open>counted\<close> are the invariants of the loop:
  the window splits into served packages \<open>S\<close> and pending ones \<open>P\<close>, and the counters
  of the router agree with the lengths of its lists.
\<close>

definition pickup_weight :: "package \<Rightarrow> int \<times> int" where
  "pickup_weight p = (fst p, snd (snd p))"

definition delivery_weight :: "package \<Rightarrow> int \<times> int" where
  "delivery_weight p = (fst (snd p), snd (snd p))"

definition self_referential :: "package \<Rightarrow> package" where
  "self_referential p = (fst p, fst p, snd (snd p))"

definition pick_pairs :: "move list \<Rightarrow> (int \<times> int) list" where
  "pick_pairs rt = map (\<lambda>m. (fst m, snd (snd m))) (filter (\<lambda>m. fst (snd m) = ''pick'') rt)"

definition drop_pairs :: "move list \<Rightarrow> (int \<times> int) list" where
  "drop_pairs rt = map (\<lambda>m. (fst m, snd (snd m))) (filter (\<lambda>m. fst (snd m) = ''drop'') rt)"

definition split_of ::
    "package list \<Rightarrow> router \<Rightarrow> package multiset \<Rightarrow> package multiset \<Rightarrow> bool" where
  "split_of W s S P \<longleftrightarrow>
     mset W = S + P
     \<and> mset (pickups s) = image_mset pickup_weight P
     \<and> mset (pick_pairs (route s)) = image_mset pickup_weight S
     \<and> mset (dropped_weights (route s)) + mset (map snd (deliveries s))
         = image_mset (\<lambda>p. snd (snd p)) S
     \<and> (distinct (map fst W) \<longrightarrow>
          mset (drop_pairs (route s)) + mset (deliveries s) = image_mset delivery_weight S)"

definition counted :: "package list \<Rightarrow> router \<Rightarrow> bool" where
  "counted W s \<longleftrightarrow>
     picked_up_packages s + length (pickups s) = length W
     \<and> delivered_packages s + length (deliveries s) = picked_up_packages s"

text \<open>
  The weights a router accounts for: those of the pending pickups and deliveries, of
  the drops of its route, and of its not-completed list.
\<close>

definition accounted :: "router \<Rightarrow> int multiset" where
  "accounted st =
     mset (map snd (pickups st)) + mset (map snd (deliveries st))
     + mset (dropped_weights (route st))
     + mset (map (\<lambda>p. snd (snd p)) (not_completed st))"

text \<open>The packages of the example of the source, and the router of the van (9, 8) for them.\<close>

definition example_packages :: "package list" where
  "example_packages = [(- 1, 5, 4), (6, 2, 9), (- 2, 9, 3)]"

definition example_router :: router where
  "example_router = projr (VanRouter (9, 8) example_packages)"

text \<open>
  An example state: the router of the van (5, 1) for the packages (1, 2, 3) and (3, 4, 9)
  after two iterations of the loop. The first package is delivered and the second is
  too heavy for the van.
\<close>

definition stuck_router :: router where
  "stuck_router =
     \<lparr> van_capacity = 5, fuel_per_unit = 1,
       route = [(0, ''start'', 0), (1, ''pick'', 3), (2, ''drop'', 3)],
       current_location = 2, total_distance = 2, total_fuel = 2, current_load = 0,
       picked_up_packages = 1, delivered_packages = 1,
       pickups = [(3, 9)], deliveries = [], not_completed = [],
       packages = [(1, 2, 3), (3, 4, 9)] \<rparr>"

text \<open>
  An example for the allocator: five light packages near the depot and a heavy one
  outside the window. The van (5, 1) serves the five, with the route \<open>crowd_route\<close>;
  the van (6, 2) cannot carry the heavy one, the van (50, 3) could.
\<close>

definition crowd_packages :: "package list" where
  "crowd_packages = [(1, 2, 1), (2, 3, 1), (3, 4, 1), (4, 5, 1), (5, 6, 1), (10, 11, 40)]"

definition crowd_route :: "move list" where
  "crowd_route =
     [(0, ''start'', 0), (1, ''pick'', 1), (2, ''pick'', 1), (2, ''drop'', 1),
      (3, ''pick'', 1), (3, ''drop'', 1), (4, ''pick'', 1), (4, ''drop'', 1),
      (5, ''pick'', 1), (5, ''drop'', 1), (6, ''drop'', 1), (0, ''end'', 0)]"

definition crowd_start :: allocation where
  "crowd_start =
     \<lparr> vans_used = [], sum_distance = 0, sum_fuel = 0, routes = [],
       remaining_packages = crowd_packages \<rparr>"

definition crowd_served :: allocation where
  "crowd_served =
     \<lparr> vans_used = [(5, 1)], sum_distance = 12, sum_fuel = 12, routes = [crowd_route],
       remaining_packages = [(10, 11, 40)] \<rparr>"

declare siftdown_loop.simps [simp del] siftup_loop.simps [simp del]
  construct_route.simps [simp del]

section \<open>The heap functions permute the list\<close>

lemma smaller_child_cases:
  "smaller_child heap c = c \<or> smaller_child heap c = c + 1 \<and> c + 1 < length heap"
  by (simp add: smaller_child_def)

lemma smaller_child_less:
  "c < length heap \<Longrightarrow> smaller_child heap c < length heap"
  by (simp add: smaller_child_def)

lemma mset_move_hole:
  assumes "i < length xs" "j < length xs"
  shows "mset (xs[i := xs ! j, j := x]) = mset (xs[i := x])"
proof (cases "i = j")
  case True
  then show ?thesis by simp
next
  case False
  have "mset ((xs[i := x])[i := (xs[i := x]) ! j, j := (xs[i := x]) ! i]) = mset (xs[i := x])"
    using assms by (intro mset_swap) simp_all
  with False assms show ?thesis by simp
qed

lemma siftup_loop_hole:
  assumes "siftup_loop heap pos = (heap', pos')" "pos < length heap"
  shows "length heap' = length heap \<and> pos' < length heap \<and> pos \<le> pos'
         \<and> mset (heap'[pos' := x]) = mset (heap[pos := x])"
  using assms
proof (induction heap pos arbitrary: heap' pos' rule: siftup_loop.induct)
  case (1 heap pos)
  show ?case
  proof (cases "2 * pos + 1 < length heap")
    case True
    let ?c = "smaller_child heap (2 * pos + 1)"
    have c: "?c < length heap" using True by (rule smaller_child_less)
    have cp: "pos < ?c" using smaller_child_cases [of heap "2 * pos + 1"] by auto
    have run: "siftup_loop (heap[pos := heap ! ?c]) ?c = (heap', pos')"
      using "1.prems"(1) True by (simp add: siftup_loop.simps [of heap pos])
    from "1.IH" [OF True run] c
    have ih: "length heap' = length heap" "pos' < length heap" "?c \<le> pos'"
      "mset (heap'[pos' := x]) = mset (heap[pos := heap ! ?c, ?c := x])"
      by simp_all
    from ih cp mset_move_hole [OF "1.prems"(2) c, of x] show ?thesis by simp
  next
    case False
    with "1.prems" show ?thesis by (simp add: siftup_loop.simps [of heap pos])
  qed
qed

lemma siftdown_loop_hole:
  assumes "siftdown_loop heap startpos pos item = (heap', pos')" "pos < length heap"
  shows "length heap' = length heap \<and> pos' \<le> pos
         \<and> mset (heap'[pos' := x]) = mset (heap[pos := x])"
  using assms
proof (induction heap startpos pos item arbitrary: heap' pos' rule: siftdown_loop.induct)
  case (1 heap startpos pos item)
  let ?p = "(pos - 1) div 2"
  show ?case
  proof (cases "pos > startpos \<and> item < heap ! ?p")
    case True
    have p: "?p < length heap" "?p < pos" using True "1.prems"(2) by auto
    have run: "siftdown_loop (heap[pos := heap ! ?p]) startpos ?p item = (heap', pos')"
      using "1.prems"(1) True by (simp add: siftdown_loop.simps [of heap startpos pos])
    from "1.IH" [OF _ _ run] True p
    have ih: "length heap' = length heap" "pos' \<le> ?p"
      "mset (heap'[pos' := x]) = mset (heap[pos := heap ! ?p, ?p := x])"
      by simp_all
    from ih p mset_move_hole [OF "1.prems"(2) p(1), of x] show ?thesis by simp
  next
    case False
    with "1.prems" show ?thesis
      by (auto simp: siftdown_loop.simps [of heap startpos pos] split: if_splits)
  qed
qed

lemma siftdown_perm:
  assumes "pos < length heap"
  shows "length (siftdown heap startpos pos) = length heap"
    and "mset (siftdown heap startpos pos) = mset heap"
proof -
  obtain heap' pos' where run: "siftdown_loop heap startpos pos (heap ! pos) = (heap', pos')"
    by (cases "siftdown_loop heap startpos pos (heap ! pos)")
  from siftdown_loop_hole [OF run assms, of "heap ! pos"]
  show "length (siftdown heap startpos pos) = length heap"
    and "mset (siftdown heap startpos pos) = mset heap"
    by (simp_all add: siftdown_def run)
qed

lemma siftup_perm:
  assumes "pos < length heap"
  shows "length (siftup heap pos) = length heap"
    and "mset (siftup heap pos) = mset heap"
proof -
  obtain heap' pos' where run: "siftup_loop heap pos = (heap', pos')"
    by (cases "siftup_loop heap pos")
  from siftup_loop_hole [OF run assms, of "heap ! pos"]
  have h: "length heap' = length heap" "pos' < length heap"
    "mset (heap'[pos' := heap ! pos]) = mset heap"
    by simp_all
  then have "pos' < length (heap'[pos' := heap ! pos])" by simp
  from siftdown_perm [OF this, of pos] h
  show "length (siftup heap pos) = length heap"
    and "mset (siftup heap pos) = mset heap"
    by (simp_all add: siftup_def run)
qed

lemma fold_siftup_perm:
  assumes "\<forall>i \<in> set is. i < length heap"
  shows "length (fold (\<lambda>i heap. siftup heap i) is heap) = length heap
   \<and> mset (fold (\<lambda>i heap. siftup heap i) is heap) = mset heap"
  using assms by (induction "is" arbitrary: heap) (simp_all add: siftup_perm)

lemma heapify_perm:
  "length (heapify x) = length x" "mset (heapify x) = mset x"
proof -
  have "\<forall>i \<in> set (rev [0..<length x div 2]). i < length x" by auto
  from fold_siftup_perm [OF this]
  show "length (heapify x) = length x" "mset (heapify x) = mset x"
    by (simp_all add: heapify_def)
qed

lemma heapify_set: "set (heapify x) = set x"
  using heapify_perm(2) [of x] by (metis set_mset_mset)

lemma heapify_Nil_iff: "heapify x = [] \<longleftrightarrow> x = []"
  using heapify_perm(1) [of x] by (metis length_0_conv)

lemma heappop_perm:
  assumes "heap \<noteq> []"
  shows "\<exists>heap'. heappop heap = Inr (heap ! 0, heap')
          \<and> mset heap = add_mset (heap ! 0) (mset heap') \<and> length heap = Suc (length heap')"
proof (cases heap rule: rev_cases)
  case Nil
  with assms show ?thesis by simp
next
  case (snoc b y)
  show ?thesis
  proof (cases b)
    case Nil
    with snoc show ?thesis by (simp add: heappop_def)
  next
    case (Cons z zs)
    have pos: "0 < length (b[0 := y])" using Cons by simp
    have "mset (siftup (b[0 := y]) 0) = add_mset y (mset zs)"
      using siftup_perm(2) [OF pos] Cons by simp
    moreover have "length (siftup (b[0 := y]) 0) = length b"
      using siftup_perm(1) [OF pos] by simp
    ultimately show ?thesis using snoc Cons by (simp add: heappop_def)
  qed
qed

lemma nearest_Nil: "nearest [] = Inr None"
  by (simp add: nearest_def)

lemma nearest_Some:
  "heap \<noteq> [] \<Longrightarrow> nearest heap = Inr (Some (heap ! 0))"
  using heappop_perm [of heap] by (auto simp: nearest_def)

section \<open>heapify builds a heap and heappop keeps it\<close>

lemma desc_le: "desc s p \<Longrightarrow> s \<le> p"
  by (induction rule: desc.induct) auto

lemma desc_parent:
  assumes "desc s p" "p \<noteq> s"
  shows "desc s ((p - 1) div 2)"
  using assms by (cases rule: desc.cases) simp_all

lemma parent_less: "0 < j \<Longrightarrow> (j - 1) div 2 < (j :: nat)"
  by arith

lemma child_cases:
  "0 < j \<and> (j - 1) div 2 = p \<longleftrightarrow> j = 2 * p + 1 \<or> j = 2 * p + (2 :: nat)"
  by arith

lemma smaller_child_le:
  assumes "2 * p + 1 < length h" "0 < j" "j < length h" "(j - 1) div 2 = p"
  shows "h ! smaller_child h (2 * p + 1) \<le> h ! j"
proof -
  from assms(2,4) have "j = 2 * p + 1 \<or> j = 2 * p + 2" using child_cases [of j p] by simp
  then show ?thesis
  proof
    assume "j = 2 * p + 1"
    then show ?thesis by (auto simp: smaller_child_def)
  next
    assume "j = 2 * p + 2"
    with assms(3) show ?thesis by (auto simp: smaller_child_def)
  qed
qed

lemma smaller_child_parent:
  "(smaller_child h (2 * p + 1) - 1) div 2 = p" "0 < smaller_child h (2 * p + 1)"
  by (auto simp: smaller_child_def)

lemma smaller_child_desc: "desc s p \<Longrightarrow> desc s (smaller_child h (2 * p + 1))"
  using desc.left [of s p] desc.right [of s p] by (auto simp: smaller_child_def)

lemma hole_down_step:
  assumes "hole_down s h p" "desc s p" "2 * p + 1 < length h"
  shows "hole_down s (h[p := h ! smaller_child h (2 * p + 1)]) (smaller_child h (2 * p + 1))"
proof -
  let ?c = "smaller_child h (2 * p + 1)"
  let ?h = "h[p := h ! ?c]"
  have c: "?c < length h" using assms(3) by (rule smaller_child_less)
  have cp: "(?c - 1) div 2 = p" "0 < ?c" by (rule smaller_child_parent)+
  have pc: "p < ?c" using cp parent_less [of ?c] by simp
  have p: "p < length h" using assms(3) by simp
  have sp: "s \<le> p" using assms(2) by (rule desc_le)
  have "?h ! ((j - 1) div 2) \<le> ?h ! j"
    if j: "0 < j" "j < length h" "s \<le> (j - 1) div 2" for j
  proof -
    consider (out) "(j - 1) div 2 = p" | (into) "j = p" | (other) "(j - 1) div 2 \<noteq> p" "j \<noteq> p"
      by blast
    then show ?thesis
    proof cases
      case out
      then have "j \<noteq> p" using parent_less [OF j(1)] by simp
      with out p smaller_child_le [OF assms(3) j(1,2) out] show ?thesis by simp
    next
      case into
      with j have ps: "p \<noteq> s" "(p - 1) div 2 \<noteq> p" using parent_less [of p] by auto
      from assms(1) j into have "h ! ((p - 1) div 2) \<le> h ! p"
        by (auto simp: hole_down_def)
      moreover from assms(1) cp c ps sp have "h ! p \<le> h ! ?c"
        unfolding hole_down_def by (metis)
      ultimately show ?thesis using into ps p by simp
    next
      case other
      with assms(1) j have "h ! ((j - 1) div 2) \<le> h ! j"
        by (auto simp: hole_down_def)
      with other show ?thesis by simp
    qed
  qed
  then show ?thesis by (simp add: hole_down_def)
qed

lemma siftup_loop_heap:
  assumes "siftup_loop h p = (h', p')" "p < length h" "desc s p" "hole_down s h p"
  shows "heap_from s h' \<and> desc s p' \<and> length h \<le> 2 * p' + 1"
  using assms
proof (induction h p arbitrary: h' p' rule: siftup_loop.induct)
  case (1 h p)
  show ?case
  proof (cases "2 * p + 1 < length h")
    case False
    with "1.prems"(1) have eq: "h' = h" "p' = p" by (simp_all add: siftup_loop.simps [of h p])
    have "h ! ((j - 1) div 2) \<le> h ! j"
      if j: "0 < j" "j < length h" "s \<le> (j - 1) div 2" for j
    proof -
      from j(1,2) False have "(j - 1) div 2 \<noteq> p" by arith
      with "1.prems"(4) j show ?thesis by (auto simp: hole_down_def)
    qed
    with eq False "1.prems"(3) show ?thesis by (simp add: heap_from_def)
  next
    case True
    let ?c = "smaller_child h (2 * p + 1)"
    have run: "siftup_loop (h[p := h ! ?c]) ?c = (h', p')"
      using "1.prems"(1) True by (simp add: siftup_loop.simps [of h p])
    have c: "?c < length (h[p := h ! ?c])" using True by (simp add: smaller_child_less)
    from "1.IH" [OF True run c smaller_child_desc [OF "1.prems"(3)]
        hole_down_step [OF "1.prems"(4,3) True]]
    show ?thesis by simp
  qed
qed

lemma hole_up_step:
  assumes "hole_up s x g p" "desc s p" "s < p" "p < length g" "x < g ! ((p - 1) div 2)"
  shows "hole_up s x (g[p := g ! ((p - 1) div 2)]) ((p - 1) div 2)"
proof -
  let ?q = "(p - 1) div 2"
  let ?g = "g[p := g ! ?q]"
  have p0: "0 < p" using assms(3) by simp
  have qp: "?q < p" using p0 by (rule parent_less)
  have q: "?q < length g" using qp assms(4) by simp
  have dq: "desc s ?q" using assms(2,3) by (intro desc_parent) simp_all
  have sq: "s \<le> ?q" using dq by (rule desc_le)
  have old: "(g[p := x]) ! ((j - 1) div 2) \<le> (g[p := x]) ! j"
    if "0 < j" "j < length g" "s \<le> (j - 1) div 2" "j \<noteq> p" for j
    using assms(1) that by (simp add: hole_up_def)
  have kids: "g ! ?q \<le> g ! j" if "0 < j" "j < length g" "(j - 1) div 2 = p" for j
    using assms(1,3) that by (simp add: hole_up_def)
  have first: "(?g[?q := x]) ! ((j - 1) div 2) \<le> (?g[?q := x]) ! j"
    if j: "0 < j" "j < length g" "s \<le> (j - 1) div 2" "j \<noteq> ?q" for j
  proof -
    consider (hole) "j = p" | (sibling) "j \<noteq> p" "(j - 1) div 2 = ?q"
      | (child) "(j - 1) div 2 = p" | (other) "j \<noteq> p" "(j - 1) div 2 \<noteq> ?q" "(j - 1) div 2 \<noteq> p"
      by blast
    then show ?thesis
    proof cases
      case hole
      with assms(4,5) q qp show ?thesis by simp
    next
      case sibling
      from old [OF j(1,2,3) sibling(1)] sibling qp j(4) have "g ! ?q \<le> g ! j" by simp
      with assms(5) sibling j q qp show ?thesis by simp
    next
      case child
      then have jp: "p < j" using parent_less [OF j(1)] by simp
      from kids [OF j(1,2) child] child jp qp assms(4) show ?thesis by simp
    next
      case other
      from old [OF j(1,2,3) other(1)] other j(4) show ?thesis by simp
    qed
  qed
  have second: "g ! ((?q - 1) div 2) \<le> ?g ! j"
    if ne: "?q \<noteq> s" and j: "0 < j" "j < length g" "(j - 1) div 2 = ?q" for j
  proof -
    from ne sq have q0: "0 < ?q" by simp
    have "desc s ((?q - 1) div 2)" using dq ne by (rule desc_parent)
    then have "s \<le> (?q - 1) div 2" by (rule desc_le)
    from old [OF q0 q this] qp parent_less [OF q0] have up: "g ! ((?q - 1) div 2) \<le> g ! ?q"
      by simp
    show ?thesis
    proof (cases "j = p")
      case True
      with up assms(4) show ?thesis by simp
    next
      case False
      have sj: "s \<le> (j - 1) div 2" using j(3) sq by simp
      from old [OF j(1,2) sj False] j(3) qp False have "g ! ?q \<le> g ! j"
        by simp
      with up False show ?thesis by simp
    qed
  qed
  have pq: "((p - 1) div 2 - 1) div 2 < p" using qp by arith
  show ?thesis
    unfolding hole_up_def
  proof (intro conjI allI impI)
    fix j assume "0 < j \<and> j < length ?g \<and> s \<le> (j - 1) div 2 \<and> j \<noteq> ?q"
    then show "(?g[?q := x]) ! ((j - 1) div 2) \<le> (?g[?q := x]) ! j"
      using first [of j] by simp
  next
    fix j assume "?q \<noteq> s" "0 < j \<and> j < length ?g \<and> (j - 1) div 2 = ?q"
    then show "?g ! ((?q - 1) div 2) \<le> ?g ! j"
      using second [of j] pq by simp
  qed
qed

lemma siftdown_loop_heap:
  assumes "siftdown_loop g s p x = (g', p')" "p < length g" "desc s p" "hole_up s x g p"
  shows "heap_from s (g'[p' := x])"
  using assms
proof (induction g s p x arbitrary: g' p' rule: siftdown_loop.induct)
  case (1 g s p x)
  let ?q = "(p - 1) div 2"
  show ?case
  proof (cases "s < p \<and> x < g ! ?q")
    case True
    then have run: "siftdown_loop (g[p := g ! ?q]) s ?q x = (g', p')"
      using "1.prems"(1) by (simp add: siftdown_loop.simps [of g s p])
    have qp: "?q < p" using True by (intro parent_less) simp
    then have q: "?q < length (g[p := g ! ?q])" using "1.prems"(2) by simp
    have dq: "desc s ?q" using "1.prems"(3) True by (intro desc_parent) simp_all
    from True have t: "s < p" "x < g ! ?q" by simp_all
    from "1.IH" [OF t run q dq hole_up_step [OF "1.prems"(4,3) t(1) "1.prems"(2) t(2)]]
    show ?thesis .
  next
    case False
    with "1.prems"(1) have eq: "g' = g" "p' = p"
      by (auto simp: siftdown_loop.simps [of g s p] split: if_splits)
    have sp: "s \<le> p" using "1.prems"(3) by (rule desc_le)
    have "(g[p := x]) ! ((j - 1) div 2) \<le> (g[p := x]) ! j"
      if j: "0 < j" "j < length g" "s \<le> (j - 1) div 2" for j
    proof (cases "j = p")
      case ne: False
      with "1.prems"(4) j show ?thesis by (simp add: hole_up_def)
    next
      case True
      with j have "s < p" using parent_less [OF j(1)] by simp
      with False have "g ! ?q \<le> x" by simp
      with True j parent_less [OF j(1)] show ?thesis by simp
    qed
    with eq show ?thesis by (simp add: heap_from_def)
  qed
qed

lemma siftup_heap:
  assumes "heap_from (Suc i) h" "i < length h"
  shows "heap_from i (siftup h i)"
proof -
  obtain h' p' where run: "siftup_loop h i = (h', p')" by (cases "siftup_loop h i")
  have "hole_down i h i"
    using assms(1) unfolding hole_down_def heap_from_def
    by (metis Suc_leI le_neq_implies_less)
  from siftup_loop_heap [OF run assms(2) desc.self this]
  have h': "heap_from i h'" "desc i p'" "length h \<le> 2 * p' + 1" by simp_all
  from siftup_loop_hole [OF run assms(2), of "h ! i"]
  have len: "length h' = length h" "p' < length h" by simp_all
  let ?g = "h'[p' := h ! i]"
  obtain g' p'' where down: "siftdown_loop ?g i p' (h ! i) = (g', p'')"
    by (cases "siftdown_loop ?g i p' (h ! i)")
  have leaf: "(j - 1) div 2 \<noteq> p'" if "0 < j" "j < length h" for j
    using that h'(3) by arith
  have "hole_up i (h ! i) ?g p'"
    unfolding hole_up_def
  proof (intro conjI allI impI)
    fix j assume j: "0 < j \<and> j < length ?g \<and> i \<le> (j - 1) div 2 \<and> j \<noteq> p'"
    with h'(1) len have "h' ! ((j - 1) div 2) \<le> h' ! j" by (simp add: heap_from_def)
    with j leaf [of j] len show "(?g[p' := h ! i]) ! ((j - 1) div 2) \<le> (?g[p' := h ! i]) ! j"
      by simp
  next
    fix j assume "p' \<noteq> i" "0 < j \<and> j < length ?g \<and> (j - 1) div 2 = p'"
    with leaf [of j] len show "?g ! ((p' - 1) div 2) \<le> ?g ! j" by simp
  qed
  from siftdown_loop_heap [OF down _ h'(2) this] len
  have "heap_from i (g'[p'' := h ! i])" by simp
  with run down len show ?thesis by (simp add: siftup_def siftdown_def)
qed

lemma heap_root_least:
  assumes "heap_from 0 h" "j < length h"
  shows "h ! 0 \<le> h ! j"
  using assms(2)
proof (induction j rule: less_induct)
  case (less j)
  show ?case
  proof (cases "j = 0")
    case True
    then show ?thesis by simp
  next
    case False
    then have j: "0 < j" by simp
    have "(j - 1) div 2 < j" using j by (rule parent_less)
    moreover from this less.prems have "(j - 1) div 2 < length h" by simp
    ultimately have "h ! 0 \<le> h ! ((j - 1) div 2)" by (rule less.IH)
    also from assms(1) j less.prems have "\<dots> \<le> h ! j" by (simp add: heap_from_def)
    finally show ?thesis .
  qed
qed

lemma fold_siftup_heap:
  assumes "heap_from k h" "k \<le> length h"
  shows "heap_from 0 (fold (\<lambda>i heap. siftup heap i) (rev [0..<k]) h)"
  using assms
proof (induction k arbitrary: h)
  case 0
  then show ?case by simp
next
  case (Suc k)
  from Suc.prems have k: "k < length h" by simp
  have "heap_from k (siftup h k)" using Suc.prems(1) k by (rule siftup_heap)
  moreover have "k \<le> length (siftup h k)" using k by (simp add: siftup_perm)
  ultimately have "heap_from 0 (fold (\<lambda>i heap. siftup heap i) (rev [0..<k]) (siftup h k))"
    by (rule Suc.IH)
  then show ?case by simp
qed

lemma heapify_heap: "heap_from 0 (heapify x)"
proof -
  have "heap_from (length x div 2) x"
    unfolding heap_from_def by (intro allI impI) arith
  then show ?thesis unfolding heapify_def by (rule fold_siftup_heap) simp
qed

lemma heappop_heap:
  assumes "heap_from 0 h" "heappop h = Inr (x, h')"
  shows "heap_from 0 h'"
proof (cases h rule: rev_cases)
  case Nil
  with assms(2) show ?thesis by (simp add: heappop_def)
next
  case (snoc b y)
  show ?thesis
  proof (cases "b = []")
    case True
    with snoc assms(2) show ?thesis by (auto simp: heappop_def heap_from_def)
  next
    case False
    with snoc assms(2) have h': "h' = siftup (b[0 := y]) 0" by (simp add: heappop_def)
    have "heap_from (Suc 0) (b[0 := y])"
      unfolding heap_from_def
    proof (intro allI impI)
      fix j assume j: "0 < j \<and> j < length (b[0 := y]) \<and> Suc 0 \<le> (j - 1) div 2"
      then have "j < length h" using snoc by simp
      with assms(1) j have "h ! ((j - 1) div 2) \<le> h ! j" by (simp add: heap_from_def)
      moreover from j parent_less [of j] have "(j - 1) div 2 < length b" by simp
      ultimately have "b ! ((j - 1) div 2) \<le> b ! j" using j snoc by (simp add: nth_append)
      with j show "(b[0 := y]) ! ((j - 1) div 2) \<le> (b[0 := y]) ! j" by simp
    qed
    moreover have "0 < length (b[0 := y])" using False by simp
    ultimately show ?thesis unfolding h' by (rule siftup_heap)
  qed
qed

lemma heappop_times_sorted:
  assumes "heap_from 0 h" "n \<le> length h"
  shows "\<exists>xs h'. heappop_times n h = Inr (xs, h') \<and> sorted xs
           \<and> (\<forall>x \<in> set xs. \<forall>y \<in> set h'. x \<le> y)
           \<and> mset h = mset xs + mset h' \<and> length xs = n"
  using assms
proof (induction n arbitrary: h)
  case 0
  then show ?case by simp
next
  case (Suc n)
  then have ne: "h \<noteq> []" by auto
  from heappop_perm [OF ne] obtain h1 where
    pop: "heappop h = Inr (h ! 0, h1)"
    and m: "mset h = add_mset (h ! 0) (mset h1)"
    and l: "length h = Suc (length h1)"
    by blast
  have h1: "heap_from 0 h1" using Suc.prems(1) pop by (rule heappop_heap)
  from Suc.prems(2) l have "n \<le> length h1" by simp
  from Suc.IH [OF h1 this] obtain xs h' where
    rest: "heappop_times n h1 = Inr (xs, h')" "sorted xs"
      "\<forall>x \<in> set xs. \<forall>y \<in> set h'. x \<le> y"
      "mset h1 = mset xs + mset h'" "length xs = n"
    by blast
  have least: "h ! 0 \<le> y" if "y \<in> set h" for y
  proof -
    from that obtain j where "j < length h" "h ! j = y" by (auto simp: in_set_conv_nth)
    with heap_root_least [OF Suc.prems(1), of j] show ?thesis by simp
  qed
  have sub: "set h1 \<subseteq> set h"
  proof -
    have "set_mset (mset h1) \<subseteq> set_mset (mset h)" unfolding m by auto
    then show ?thesis by simp
  qed
  have parts: "set xs \<subseteq> set h1" "set h' \<subseteq> set h1"
  proof -
    have "set_mset (mset xs) \<subseteq> set_mset (mset h1)" "set_mset (mset h') \<subseteq> set_mset (mset h1)"
      unfolding rest(4) by auto
    then show "set xs \<subseteq> set h1" "set h' \<subseteq> set h1" by simp_all
  qed
  have "sorted (h ! 0 # xs)" using rest(2) least sub parts(1) by auto
  moreover have "\<forall>x \<in> set (h ! 0 # xs). \<forall>y \<in> set h'. x \<le> y"
    using rest(3) least sub parts(2) by auto
  moreover have "mset h = mset (h ! 0 # xs) + mset h'" using m rest(4) by simp
  ultimately show ?case using pop rest(1,5) by simp
qed

lemma sorted_prefix_of_sort:
  fixes xs :: "'a::linorder list"
  assumes "sorted xs" "\<forall>x \<in> set xs. \<forall>y \<in> set ys. x \<le> y" "mset xs + mset ys = mset zs"
  shows "xs = take (length xs) (sort zs)" and "mset ys = mset (drop (length xs) (sort zs))"
proof -
  have "sorted (xs @ sort ys)" using assms(1,2) by (simp add: sorted_append)
  moreover have "mset (xs @ sort ys) = mset zs" using assms(3) by simp
  ultimately have eq: "sort zs = xs @ sort ys" by (intro properties_for_sort) simp_all
  show "xs = take (length xs) (sort zs)" by (simp add: eq)
  show "mset ys = mset (drop (length xs) (sort zs))" by (simp add: eq)
qed

lemma heapify_pops_sorted:
  assumes "n \<le> length zs"
  shows "\<exists>xs h'. heappop_times n (heapify zs) = Inr (xs, h')
           \<and> xs = take n (sort zs) \<and> mset h' = mset (drop n (sort zs))"
proof -
  from assms have "n \<le> length (heapify zs)" by (simp add: heapify_perm)
  from heappop_times_sorted [OF heapify_heap this] obtain xs h' where
    run: "heappop_times n (heapify zs) = Inr (xs, h')" and s: "sorted xs"
    and le: "\<forall>x \<in> set xs. \<forall>y \<in> set h'. x \<le> y"
    and m: "mset (heapify zs) = mset xs + mset h'" and l: "length xs = n"
    by blast
  from m have "mset xs + mset h' = mset zs" by (simp add: heapify_perm)
  from sorted_prefix_of_sort [OF s le this] l run show ?thesis by simp
qed

section \<open>The moves of the router\<close>

lemma heappop_times_perm:
  assumes "n \<le> length heap"
  shows "\<exists>xs heap'. heappop_times n heap = Inr (xs, heap')
          \<and> mset heap = mset xs + mset heap' \<and> length xs = n"
  using assms
proof (induction n arbitrary: heap)
  case 0
  then show ?case by simp
next
  case (Suc n)
  then have "heap \<noteq> []" by auto
  from heappop_perm [OF this] obtain heap1 where
    pop: "heappop heap = Inr (heap ! 0, heap1)"
    and m: "mset heap = add_mset (heap ! 0) (mset heap1)"
    and l: "length heap = Suc (length heap1)"
    by blast
  from Suc.prems l have "n \<le> length heap1" by simp
  from Suc.IH [OF this] obtain xs heap' where
    "heappop_times n heap1 = Inr (xs, heap')" "mset heap1 = mset xs + mset heap'" "length xs = n"
    by blast
  with pop m show ?case by simp
qed

lemma VanRouter_Inr:
  "\<exists>st. VanRouter van pkgs = Inr st
     \<and> van_capacity st = fst van \<and> fuel_per_unit st = snd van
     \<and> route st = [(0, ''start'', 0)] \<and> current_location st = 0
     \<and> total_distance st = 0 \<and> total_fuel st = 0 \<and> current_load st = 0
     \<and> picked_up_packages st = 0 \<and> delivered_packages st = 0
     \<and> pickups st = map (\<lambda>p. (fst p, snd (snd p))) (packages st)
     \<and> deliveries st = []
     \<and> mset (packages st) + mset (not_completed st) = mset pkgs
     \<and> length (packages st) = min 5 (length pkgs)"
proof -
  let ?heap = "heapify (map (\<lambda>p. (distance 0 (fst p), p)) pkgs)"
  have len: "length ?heap = length pkgs" by (simp add: heapify_perm)
  have "min 5 (length ?heap) \<le> length ?heap" by simp
  from heappop_times_perm [OF this] obtain xs heap' where
    run: "heappop_times (min 5 (length ?heap)) ?heap = Inr (xs, heap')"
    and m: "mset ?heap = mset xs + mset heap'"
    and l: "length xs = min 5 (length ?heap)"
    by blast
  have "image_mset snd (mset ?heap) = mset pkgs"
    by (simp add: heapify_perm multiset.map_comp comp_def)
  with m have "mset (map snd xs) + mset (map snd heap') = mset pkgs"
    by simp
  with run l len show ?thesis
    by (simp add: VanRouter_def Let_def)
qed

lemma pickup_heap_mem:
  "(d, l, w) \<in> set (pickup_heap st) \<longleftrightarrow>
     (l, w) \<in> set (pickups st) \<and> current_load st + w \<le> van_capacity st
     \<and> d = distance (current_location st) l"
  by (auto simp: pickup_heap_def heapify_set)

lemma delivery_heap_mem:
  "(d, l, w) \<in> set (delivery_heap st) \<longleftrightarrow>
     (l, w) \<in> set (deliveries st) \<and> d = distance (current_location st) l"
  by (auto simp: delivery_heap_def heapify_set)

lemma delivery_heap_Nil: "delivery_heap st = [] \<longleftrightarrow> deliveries st = []"
  by (simp add: delivery_heap_def heapify_Nil_iff)

lemma pickup_heap_Nil:
  "pickup_heap st = [] \<longleftrightarrow>
     (\<forall>(l, w) \<in> set (pickups st). \<not> current_load st + w \<le> van_capacity st)"
  by (auto simp: pickup_heap_def heapify_Nil_iff filter_empty_conv)

lemma find_nearest_valid_move_eq:
  "find_nearest_valid_move st =
     Inr (if pickup_heap st \<noteq> [] \<and>
             (delivery_heap st = [] \<or> fst (pickup_heap st ! 0) \<le> fst (delivery_heap st ! 0))
          then (case pickup_heap st ! 0 of (d, l, w) \<Rightarrow> Some (d, l, ''pick'', w))
          else if delivery_heap st \<noteq> []
          then (case delivery_heap st ! 0 of (d, l, w) \<Rightarrow> Some (d, l, ''drop'', w))
          else None)"
  by (cases "pickup_heap st = []"; cases "delivery_heap st = []")
     (auto simp: find_nearest_valid_move_def nearest_Nil nearest_Some split: prod.splits)

lemma find_nearest_valid_move_None:
  "find_nearest_valid_move st = Inr None \<longleftrightarrow> pickup_heap st = [] \<and> delivery_heap st = []"
  by (auto simp: find_nearest_valid_move_eq split: prod.splits)

lemma find_nearest_valid_move_cases:
  obtains (pick) d l w where "pickup_heap st \<noteq> []" "pickup_heap st ! 0 = (d, l, w)"
      "find_nearest_valid_move st = Inr (Some (d, l, ''pick'', w))"
  | (drop) d l w where "delivery_heap st \<noteq> []" "delivery_heap st ! 0 = (d, l, w)"
      "find_nearest_valid_move st = Inr (Some (d, l, ''drop'', w))"
  | (none) "pickup_heap st = []" "delivery_heap st = []"
      "find_nearest_valid_move st = Inr None"
proof (cases "pickup_heap st \<noteq> [] \<and>
             (delivery_heap st = [] \<or> fst (pickup_heap st ! 0) \<le> fst (delivery_heap st ! 0))")
  case True
  obtain d l w where "pickup_heap st ! 0 = (d, l, w)" by (cases "pickup_heap st ! 0")
  with True show ?thesis by (intro pick [of d l w]) (simp_all add: find_nearest_valid_move_eq)
next
  case False
  show ?thesis
  proof (cases "delivery_heap st = []")
    case True
    with False show ?thesis by (intro none) (simp_all add: find_nearest_valid_move_eq)
  next
    case nonempty: False
    obtain d l w where "delivery_heap st ! 0 = (d, l, w)" by (cases "delivery_heap st ! 0")
    with False nonempty show ?thesis
      by (intro drop [of d l w]) (auto simp: find_nearest_valid_move_eq)
  qed
qed

lemma find_nearest_valid_move_Some:
  assumes "find_nearest_valid_move st = Inr (Some (d, l, a, w))"
  shows "a = ''pick'' \<and> (d, l, w) \<in> set (pickup_heap st)
       \<or> a = ''drop'' \<and> (d, l, w) \<in> set (delivery_heap st)"
proof (cases st rule: find_nearest_valid_move_cases)
  case (pick d' l' w')
  from pick(1) have "pickup_heap st ! 0 \<in> set (pickup_heap st)" by simp
  with pick assms show ?thesis by simp
next
  case (drop d' l' w')
  from drop(1) have "delivery_heap st ! 0 \<in> set (delivery_heap st)" by simp
  with drop assms show ?thesis by simp
next
  case none
  with assms show ?thesis by simp
qed

section \<open>The window of the closest packages\<close>

lemma closest_first_sorted:
  "sorted (map (\<lambda>p. (distance 0 (fst p), p)) (closest_first pkgs))"
proof -
  let ?key = "\<lambda>p :: package. (distance 0 (fst p), p)"
  have "map (?key \<circ> snd) (sort (map ?key pkgs)) = sort (map ?key pkgs)"
  proof (rule map_idI)
    fix kp assume "kp \<in> set (sort (map ?key pkgs))"
    then obtain p where "kp = ?key p" by auto
    then show "(?key \<circ> snd) kp = kp" by simp
  qed
  then have "map ?key (closest_first pkgs) = sort (map ?key pkgs)"
    by (simp add: closest_first_def)
  then show ?thesis by simp
qed

lemma sorted_map_fst_lex:
  fixes xs :: "('a::linorder \<times> 'b::linorder) list"
  shows "sorted xs \<Longrightarrow> sorted (map fst xs)"
  by (induction xs) (auto simp: less_eq_prod_def)

lemma closest_first_mset: "mset (closest_first pkgs) = mset pkgs"
proof -
  have "mset (closest_first pkgs)
      = image_mset snd (image_mset (\<lambda>p. (distance 0 (fst p), p)) (mset pkgs))"
    by (simp add: closest_first_def)
  also have "\<dots> = mset pkgs" by (simp add: multiset.map_comp comp_def)
  finally show ?thesis .
qed

section \<open>The loop of the route builder\<close>

lemma apply_move_pickE:
  assumes "apply_move st (d, l, ''pick'', w) = Inr st'"
  obtains dl where "(l, w) \<in> set (pickups st)"
    "st' = st \<lparr> total_distance := total_distance st + d,
                 total_fuel := total_fuel st + d * fuel_per_unit st,
                 route := route st @ [(l, ''pick'', w)],
                 current_location := l,
                 current_load := current_load st + w,
                 pickups := remove1 (l, w) (pickups st),
                 deliveries := deliveries st @ [(dl, w)],
                 picked_up_packages := picked_up_packages st + 1 \<rparr>"
  using assms
  by (auto simp: apply_move_def Let_def split: if_splits option.splits)

lemma apply_move_dropE:
  assumes "apply_move st (d, l, ''drop'', w) = Inr st'"
  obtains "(l, w) \<in> set (deliveries st)"
    "st' = st \<lparr> total_distance := total_distance st + d,
                 total_fuel := total_fuel st + d * fuel_per_unit st,
                 route := route st @ [(l, ''drop'', w)],
                 current_location := l,
                 current_load := current_load st - w,
                 deliveries := remove1 (l, w) (deliveries st),
                 delivered_packages := delivered_packages st + 1 \<rparr>"
  using assms
  by (auto simp: apply_move_def Let_def split: if_splits)

lemma loop_step_cases:
  assumes "find_nearest_valid_move st = Inr (Some mv)" "apply_move st mv = Inr st'"
  obtains (pick) d l w dl where "mv = (d, l, ''pick'', w)"
      "(l, w) \<in> set (pickups st)" "current_load st + w \<le> van_capacity st"
      "d = distance (current_location st) l"
      "st' = st \<lparr> total_distance := total_distance st + d,
                   total_fuel := total_fuel st + d * fuel_per_unit st,
                   route := route st @ [(l, ''pick'', w)],
                   current_location := l,
                   current_load := current_load st + w,
                   pickups := remove1 (l, w) (pickups st),
                   deliveries := deliveries st @ [(dl, w)],
                   picked_up_packages := picked_up_packages st + 1 \<rparr>"
  | (drop) d l w where "mv = (d, l, ''drop'', w)"
      "(l, w) \<in> set (deliveries st)"
      "d = distance (current_location st) l"
      "st' = st \<lparr> total_distance := total_distance st + d,
                   total_fuel := total_fuel st + d * fuel_per_unit st,
                   route := route st @ [(l, ''drop'', w)],
                   current_location := l,
                   current_load := current_load st - w,
                   deliveries := remove1 (l, w) (deliveries st),
                   delivered_packages := delivered_packages st + 1 \<rparr>"
proof -
  obtain d l a w where mv: "mv = (d, l, a, w)" by (cases mv)
  from find_nearest_valid_move_Some [OF assms(1) [unfolded mv]]
  show ?thesis
  proof
    assume h: "a = ''pick'' \<and> (d, l, w) \<in> set (pickup_heap st)"
    with assms(2) mv have "apply_move st (d, l, ''pick'', w) = Inr st'" by simp
    then show ?thesis
      using h mv by (elim apply_move_pickE) (rule pick, simp_all add: pickup_heap_mem)
  next
    assume h: "a = ''drop'' \<and> (d, l, w) \<in> set (delivery_heap st)"
    with assms(2) mv have "apply_move st (d, l, ''drop'', w) = Inr st'" by simp
    then show ?thesis
      using h mv by (elim apply_move_dropE) (rule drop, simp_all add: delivery_heap_mem)
  qed
qed

lemma apply_move_Inr:
  assumes "well_formed st" "find_nearest_valid_move st = Inr (Some mv)"
  shows "\<exists>st'. apply_move st mv = Inr st'"
proof -
  obtain d l a w where mv: "mv = (d, l, a, w)" by (cases mv)
  from find_nearest_valid_move_Some [OF assms(2) [unfolded mv]]
  show ?thesis
  proof
    assume h: "a = ''pick'' \<and> (d, l, w) \<in> set (pickup_heap st)"
    then have m: "(l, w) \<in> set (pickups st)" by (simp add: pickup_heap_mem)
    then have "l \<in> fst ` set (pickups st)" by force
    with assms(1) obtain p where "p \<in> set (packages st)" "fst p = l"
      by (auto simp: well_formed_def)
    then have "\<exists>x \<in> set (packages st). (\<lambda>(p, d, w). p = l) x"
      by (auto simp: case_prod_beta)
    then have "find (\<lambda>(p, d, w). p = l) (packages st) \<noteq> None"
      unfolding find_None_iff by blast
    with m h mv show ?thesis
      by (auto simp: apply_move_def Let_def)
  next
    assume h: "a = ''drop'' \<and> (d, l, w) \<in> set (delivery_heap st)"
    then have m: "(l, w) \<in> set (deliveries st)" by (simp add: delivery_heap_mem)
    with h mv show ?thesis
      by (simp add: apply_move_def Let_def)
  qed
qed

lemma well_formed_step:
  assumes "well_formed st" "find_nearest_valid_move st = Inr (Some mv)"
    "apply_move st mv = Inr st'"
  shows "well_formed st'"
  using assms(2,3)
proof (cases rule: loop_step_cases)
  case (pick d l w dl)
  have "set (remove1 (l, w) (pickups st)) \<subseteq> set (pickups st)" by (rule set_remove1_subset)
  with assms(1) pick(5) show ?thesis by (auto simp: well_formed_def)
next
  case (drop d l w)
  with assms(1) show ?thesis by (simp add: well_formed_def)
qed

lemma construct_route_Inr:
  "well_formed st \<Longrightarrow> \<exists>res st'. construct_route st = Inr (res, st')"
proof (induction st rule: construct_route.induct)
  case (1 st)
  show ?case
  proof (cases "active st")
    case False
    then show ?thesis by (simp add: construct_route.simps [of st] result_def)
  next
    case True
    show ?thesis
    proof (cases st rule: find_nearest_valid_move_cases)
      case none
      with True show ?thesis by (simp add: construct_route.simps [of st] result_def)
    next
      case (pick d l w)
      from apply_move_Inr [OF "1.prems" pick(3)] obtain st1 where
        st1: "apply_move st (d, l, ''pick'', w) = Inr st1" by blast
      from "1.IH" [OF True pick(3) _ st1] well_formed_step [OF "1.prems" pick(3) st1]
      have "\<exists>res st'. construct_route st1 = Inr (res, st')" by simp
      with True pick(3) st1 show ?thesis by (simp add: construct_route.simps [of st])
    next
      case (drop d l w)
      from apply_move_Inr [OF "1.prems" drop(3)] obtain st1 where
        st1: "apply_move st (d, l, ''drop'', w) = Inr st1" by blast
      from "1.IH" [OF True drop(3) _ st1] well_formed_step [OF "1.prems" drop(3) st1]
      have "\<exists>res st'. construct_route st1 = Inr (res, st')" by simp
      with True drop(3) st1 show ?thesis by (simp add: construct_route.simps [of st])
    qed
  qed
qed

lemma after_iterations_invariant:
  assumes "after_iterations n st = Some s" and "I st"
    and "\<And>s mv s'. I s \<Longrightarrow> active s \<Longrightarrow> find_nearest_valid_move s = Inr (Some mv)
            \<Longrightarrow> apply_move s mv = Inr s' \<Longrightarrow> I s'"
  shows "I s"
  using assms(1,2)
proof (induction n arbitrary: st)
  case 0
  then show ?case by simp
next
  case (Suc n)
  from Suc.prems(1) obtain mv st' where
    "active st" "find_nearest_valid_move st = Inr (Some mv)" "apply_move st mv = Inr st'"
    "after_iterations n st' = Some s"
    by (auto split: if_splits sum.splits option.splits)
  with Suc.IH [of st'] assms(3) [of st mv st'] Suc.prems(2) show ?case by blast
qed

lemma construct_route_final:
  assumes "construct_route st = Inr (res, st')"
  obtains n s where "after_iterations n st = Some s"
    "res = (total_distance st', total_fuel st', route st')"
    "active s \<and> find_nearest_valid_move s = Inr None \<and> st' = give_up s
     \<or> \<not> active s \<and> st' = return_to_depot s"
proof -
  have "\<exists>n s. after_iterations n st = Some s
          \<and> res = (total_distance st', total_fuel st', route st')
          \<and> (active s \<and> find_nearest_valid_move s = Inr None \<and> st' = give_up s
              \<or> \<not> active s \<and> st' = return_to_depot s)"
    using assms
  proof (induction st rule: construct_route.induct)
    case (1 st)
    show ?case
    proof (cases "active st")
      case False
      with "1.prems" have "after_iterations 0 st = Some st"
        "res = (total_distance st', total_fuel st', route st')" "st' = return_to_depot st"
        by (auto simp: construct_route.simps [of st] result_def)
      with False show ?thesis by blast
    next
      case True
      show ?thesis
      proof (cases "find_nearest_valid_move st")
        case (Inl e)
        with True "1.prems" show ?thesis by (simp add: construct_route.simps [of st])
      next
        case (Inr r)
        show ?thesis
        proof (cases r)
          case None
          with True Inr "1.prems" have "after_iterations 0 st = Some st"
            "res = (total_distance st', total_fuel st', route st')" "st' = give_up st"
            by (auto simp: construct_route.simps [of st] result_def)
          with True Inr None show ?thesis by blast
        next
          case (Some mv)
          show ?thesis
          proof (cases "apply_move st mv")
            case (Inl e)
            with True Inr Some "1.prems" show ?thesis
              by (simp add: construct_route.simps [of st])
          next
            case st1: (Inr st1)
            with True Inr Some "1.prems" have "construct_route st1 = Inr (res, st')"
              by (simp add: construct_route.simps [of st])
            from "1.IH" [OF True Inr Some st1 this] obtain n s where
              "after_iterations n st1 = Some s"
              "res = (total_distance st', total_fuel st', route st')"
              "active s \<and> find_nearest_valid_move s = Inr None \<and> st' = give_up s
               \<or> \<not> active s \<and> st' = return_to_depot s"
              by blast
            moreover from this(1) True Inr Some st1
            have "after_iterations (Suc n) st = Some s" by simp
            ultimately show ?thesis by blast
          qed
        qed
      qed
    qed
  qed
  with that show ?thesis by blast
qed

lemma attempt_final:
  obtains st0 res st' n s where "VanRouter van pkgs = Inr st0"
    "attempt van pkgs = Inr (res, st')"
    "after_iterations n st0 = Some s"
    "res = (total_distance st', total_fuel st', route st')"
    "active s \<and> find_nearest_valid_move s = Inr None \<and> st' = give_up s
     \<or> \<not> active s \<and> st' = return_to_depot s"
proof -
  obtain st0 where st0: "VanRouter van pkgs = Inr st0"
    "pickups st0 = map (\<lambda>p. (fst p, snd (snd p))) (packages st0)"
    using VanRouter_Inr [of van pkgs] by blast
  have "well_formed st0" by (force simp: well_formed_def st0(2))
  from construct_route_Inr [OF this] obtain res st' where
    run: "construct_route st0 = Inr (res, st')" by blast
  from st0(1) run have "attempt van pkgs = Inr (res, st')" by (simp add: attempt_def)
  with st0(1) run that show ?thesis by (elim construct_route_final) blast
qed

lemma after_iterations_count:
  assumes "after_iterations n st = Some s"
  shows "picked_up_packages s + delivered_packages s
         = picked_up_packages st + delivered_packages st + n"
  using assms
proof (induction n arbitrary: st)
  case 0
  then show ?case by simp
next
  case (Suc n)
  from Suc.prems obtain mv st' where
    step: "find_nearest_valid_move st = Inr (Some mv)" "apply_move st mv = Inr st'"
    and rest: "after_iterations n st' = Some s"
    by (auto split: if_splits sum.splits option.splits)
  from step have "picked_up_packages st' + delivered_packages st'
      = Suc (picked_up_packages st + delivered_packages st)"
    by (cases rule: loop_step_cases) simp_all
  with Suc.IH [OF rest] show ?case by simp
qed

lemma after_iterations_unfold:
  assumes "after_iterations (Suc n) st = Some s"
  obtains mv st' where "active st" "find_nearest_valid_move st = Inr (Some mv)"
    "apply_move st mv = Inr st'" "after_iterations n st' = Some s"
  using assms by (auto split: if_splits sum.splits option.splits)

lemma after_iterations_last:
  assumes "after_iterations (Suc n) st = Some s"
  shows "\<exists>t. after_iterations n st = Some t \<and> active t"
  using assms
proof (induction n arbitrary: st)
  case 0
  then show ?case by (auto split: if_splits)
next
  case (Suc n)
  from Suc.prems obtain mv st' where step: "active st"
    "find_nearest_valid_move st = Inr (Some mv)" "apply_move st mv = Inr st'"
    and rest: "after_iterations (Suc n) st' = Some s"
    by (rule after_iterations_unfold)
  from Suc.IH [OF rest] obtain t where t: "after_iterations n st' = Some t" "active t"
    by blast
  from step t(1) have "after_iterations (Suc n) st = Some t" by simp
  with t(2) show ?case by blast
qed

section \<open>Weights and loads\<close>

lemma sum_list_pos_weights:
  fixes xs :: "('a \<times> int) list"
  assumes "\<forall>x \<in> set xs. 0 < snd x"
  shows "0 \<le> sum_list (map snd xs) \<and> (sum_list (map snd xs) = 0 \<longleftrightarrow> xs = [])"
  using assms by (induction xs) auto

lemma VanRouter_window_subset:
  assumes "VanRouter van pkgs = Inr st0"
  shows "set (packages st0) \<subseteq> set pkgs"
    and "pickups st0 = map (\<lambda>p. (fst p, snd (snd p))) (packages st0)"
    and "deliveries st0 = []" and "current_load st0 = 0"
    and "van_capacity st0 = fst van" and "route st0 = [(0, ''start'', 0)]"
proof -
  from VanRouter_Inr [of van pkgs] assms
  have m: "mset (packages st0) + mset (not_completed st0) = mset pkgs"
    and rest: "pickups st0 = map (\<lambda>p. (fst p, snd (snd p))) (packages st0)"
      "deliveries st0 = []" "current_load st0 = 0"
      "van_capacity st0 = fst van" "route st0 = [(0, ''start'', 0)]"
    by auto
  from m have "set_mset (mset (packages st0)) \<subseteq> set_mset (mset pkgs)"
    by (metis set_mset_union Un_upper1)
  then show "set (packages st0) \<subseteq> set pkgs" by simp
  from rest show "pickups st0 = map (\<lambda>p. (fst p, snd (snd p))) (packages st0)"
    "deliveries st0 = []" "current_load st0 = 0"
    "van_capacity st0 = fst van" "route st0 = [(0, ''start'', 0)]"
    by simp_all
qed

lemma positive_weights_init:
  assumes "\<forall>p \<in> set pkgs. valid_package p" "VanRouter van pkgs = Inr st0"
  shows "positive_weights st0"
proof -
  note w = VanRouter_window_subset [OF assms(2)]
  have "0 < snd (snd p)" if "p \<in> set (packages st0)" for p
    using that w(1) assms(1) by (auto simp: valid_package_def case_prod_beta)
  then show ?thesis by (simp add: positive_weights_def w(2,3))
qed

lemma positive_weights_step:
  assumes "positive_weights st" "find_nearest_valid_move st = Inr (Some mv)"
    "apply_move st mv = Inr st'"
  shows "positive_weights st'"
  using assms(2,3)
proof (cases rule: loop_step_cases)
  case (pick d l w dl)
  from pick(2) assms(1) have "0 < w" by (force simp: positive_weights_def)
  moreover have "set (remove1 (l, w) (pickups st)) \<subseteq> set (pickups st)"
    by (rule set_remove1_subset)
  ultimately show ?thesis using assms(1) pick(5) by (auto simp: positive_weights_def)
next
  case (drop d l w)
  have "set (remove1 (l, w) (deliveries st)) \<subseteq> set (deliveries st)"
    by (rule set_remove1_subset)
  then show ?thesis using assms(1) drop(4) by (auto simp: positive_weights_def)
qed

lemma cumulative_load_snoc:
  "cumulative_load (rt @ [m]) = cumulative_load rt + load_change m"
  by (simp add: cumulative_load_def)

lemma take_snoc_le:
  assumes "\<forall>k \<le> length rt. cumulative_load (take k rt) \<le> c"
    and "cumulative_load (rt @ [m]) \<le> c"
  shows "\<forall>k \<le> length (rt @ [m]). cumulative_load (take k (rt @ [m])) \<le> c"
proof (intro allI impI)
  fix k assume "k \<le> length (rt @ [m])"
  then consider "k \<le> length rt" | "k = Suc (length rt)" by fastforce
  then show "cumulative_load (take k (rt @ [m])) \<le> c"
  proof cases
    case 1
    with assms(1) show ?thesis by simp
  next
    case 2
    with assms(2) show ?thesis by simp
  qed
qed

section \<open>The single-van optimizer\<close>

lemma construct_route_stuck:
  assumes "active st"
    and "\<forall>(loc, weight) \<in> set (pickups st). \<not> current_load st + weight \<le> van_capacity st"
    and "deliveries st = []"
  shows "construct_route st = Inr (result (give_up st))"
proof -
  from assms(2,3) have "find_nearest_valid_move st = Inr None"
    by (simp add: find_nearest_valid_move_None pickup_heap_Nil delivery_heap_Nil)
  with assms(1) show ?thesis
    by (simp add: construct_route.simps [of st])
qed

lemma attempt_Inr: "\<exists>res st'. attempt van pkgs = Inr (res, st')"
  by (rule attempt_final [of van pkgs]) blast

lemma try_vans_no_pickup:
  assumes "\<forall>van \<in> set vans.
             (case attempt van pkgs of
                Inl e \<Rightarrow> True
              | Inr (res, st') \<Rightarrow> picked_up_packages st' = 0)"
  shows "try_vans vans pkgs best = Inr best"
  using assms
proof (induction vans)
  case Nil
  show ?case by simp
next
  case (Cons van vans)
  obtain res st' where a: "attempt van pkgs = Inr (res, st')"
    using attempt_Inr by blast
  with Cons.prems have "picked_up_packages st' = 0" by simp
  with a Cons show ?case by (simp split: prod.splits)
qed

lemma VanRouter_single:
  "VanRouter van [p] =
     Inr \<lparr> van_capacity = fst van, fuel_per_unit = snd van,
           route = [(0, ''start'', 0)], current_location = 0,
           total_distance = 0, total_fuel = 0, current_load = 0,
           picked_up_packages = 0, delivered_packages = 0,
           pickups = [(fst p, snd (snd p))], deliveries = [],
           not_completed = [], packages = [p] \<rparr>"
  by (simp add: VanRouter_def heapify_def heappop_def Let_def)

lemma attempt_too_heavy:
  assumes "fst van < snd (snd p)"
  shows "\<exists>res st'. attempt van [p] = Inr (res, st') \<and> picked_up_packages st' = 0"
proof -
  let ?st = "\<lparr> van_capacity = fst van, fuel_per_unit = snd van,
           route = [(0, ''start'', 0)], current_location = 0,
           total_distance = 0, total_fuel = 0, current_load = 0,
           picked_up_packages = 0, delivered_packages = 0,
           pickups = [(fst p, snd (snd p))], deliveries = [],
           not_completed = [], packages = [p] \<rparr>"
  have "active ?st" by (simp add: active_def)
  moreover have "\<forall>(loc, weight) \<in> set (pickups ?st).
      \<not> current_load ?st + weight \<le> van_capacity ?st"
    using assms by simp
  moreover have "deliveries ?st = []" by simp
  ultimately have "construct_route ?st = Inr (result (give_up ?st))"
    by (rule construct_route_stuck)
  then show ?thesis
    by (simp add: attempt_def VanRouter_single result_def give_up_def)
qed

section \<open>Conservation of weights\<close>

lemma mset_map_remove1:
  assumes "x \<in> set xs"
  shows "mset (map f xs) = add_mset (f x) (mset (map f (remove1 x xs)))"
proof -
  from assms have "mset xs = add_mset x (mset (remove1 x xs))" by simp
  then have "image_mset f (mset xs) = image_mset f (add_mset x (mset (remove1 x xs)))"
    by simp
  then show ?thesis by simp
qed

lemma dropped_weights_snoc:
  "dropped_weights (rt @ [(l, a, w)]) =
     (if a = ''drop'' then dropped_weights rt @ [w] else dropped_weights rt)"
  by (simp add: dropped_weights_def)

lemma accounted_step:
  assumes "find_nearest_valid_move st = Inr (Some mv)" "apply_move st mv = Inr st'"
  shows "accounted st' = accounted st"
  using assms
proof (cases rule: loop_step_cases)
  case (pick d l w dl)
  from mset_map_remove1 [OF pick(2), of snd] pick(5) show ?thesis
    by (simp add: accounted_def dropped_weights_snoc)
next
  case (drop d l w)
  from mset_map_remove1 [OF drop(2), of snd] drop(4) show ?thesis
    by (simp add: accounted_def dropped_weights_snoc)
qed

lemma pending_weights:
  "image_mset (\<lambda>p. snd (snd p)) (mset (pending st))
     = image_mset snd (mset (pickups st)) + image_mset snd (mset (deliveries st))"
proof -
  have "map (\<lambda>p. snd (snd p)) (pending st) = map snd (pickups st) @ map snd (deliveries st)"
    by (simp add: pending_def comp_def case_prod_beta)
  then have "mset (map (\<lambda>p. snd (snd p)) (pending st))
      = mset (map snd (pickups st) @ map snd (deliveries st))"
    by (rule arg_cong)
  then show ?thesis by simp
qed

lemma dropped_weights_trivial:
  "dropped_weights [] = []"
  "dropped_weights [(0, ''start'', 0)] = []"
  "dropped_weights [(0, ''start'', 0), (0, ''end'', 0)] = []"
  by (simp_all add: dropped_weights_def)

lemma attempt_weights:
  assumes "attempt van pkgs = Inr ((dist, fuel, rt), st')"
  shows "mset (dropped_weights rt) + mset (map (\<lambda>p. snd (snd p)) (not_completed st'))
           = mset (map (\<lambda>p. snd (snd p)) pkgs)"
proof -
  obtain st0 res st'' n s where st0: "VanRouter van pkgs = Inr st0"
    and run: "attempt van pkgs = Inr (res, st'')"
    and it: "after_iterations n st0 = Some s"
    and res: "res = (total_distance st'', total_fuel st'', route st'')"
    and fin: "active s \<and> find_nearest_valid_move s = Inr None \<and> st'' = give_up s
              \<or> \<not> active s \<and> st'' = return_to_depot s"
    by (rule attempt_final)
  from run assms res have eq: "st'' = st'" "rt = route st'" by simp_all
  from VanRouter_Inr [of van pkgs] st0
  have init: "route st0 = [(0, ''start'', 0)]"
    "pickups st0 = map (\<lambda>p. (fst p, snd (snd p))) (packages st0)"
    "deliveries st0 = []"
    "mset (packages st0) + mset (not_completed st0) = mset pkgs"
    by auto
  from init(4) have "image_mset (\<lambda>p. snd (snd p)) (mset (packages st0) + mset (not_completed st0))
      = image_mset (\<lambda>p. snd (snd p)) (mset pkgs)"
    by simp
  then have "accounted st0 = mset (map (\<lambda>p. snd (snd p)) pkgs)"
    by (simp add: accounted_def init(1,2,3) dropped_weights_trivial comp_def)
  with it have s: "accounted s = mset (map (\<lambda>p. snd (snd p)) pkgs)"
  proof (rule after_iterations_invariant)
    fix s mv s'
    assume "accounted s = mset (map (\<lambda>p. snd (snd p)) pkgs)"
      "find_nearest_valid_move s = Inr (Some mv)" "apply_move s mv = Inr s'"
    then show "accounted s' = mset (map (\<lambda>p. snd (snd p)) pkgs)"
      by (simp add: accounted_step)
  qed
  from fin have "mset (dropped_weights (route st''))
       + mset (map (\<lambda>p. snd (snd p)) (not_completed st'')) = accounted s"
  proof
    assume "active s \<and> find_nearest_valid_move s = Inr None \<and> st'' = give_up s"
    then show ?thesis
      by (simp add: give_up_def accounted_def pending_weights)
  next
    assume "\<not> active s \<and> st'' = return_to_depot s"
    then show ?thesis
      by (simp add: return_to_depot_def accounted_def pending_weights dropped_weights_snoc)
  qed
  with s eq show ?thesis by simp
qed

lemma try_vans_from_attempt:
  assumes "try_vans vans pkgs best = Inr (Some (v, d, f, r, nc))"
  shows "best = Some (v, d, f, r, nc)
       \<or> (\<exists>van st'. attempt van pkgs = Inr ((d, f, r), st') \<and> nc = not_completed st')"
  using assms
proof (induction vans arbitrary: best)
  case Nil
  then show ?case by simp
next
  case (Cons van vans)
  obtain res st' where a: "attempt van pkgs = Inr (res, st')"
    using attempt_Inr by blast
  obtain dist fuel rt where res: "res = (dist, fuel, rt)" by (cases res)
  let ?best = "if (case best of None \<Rightarrow> True
                            | Some (bv, bd, best_fuel, br, bn) \<Rightarrow> fuel < best_fuel)
                \<and> picked_up_packages st' > 0
             then Some (van, dist, fuel, rt, not_completed st')
             else best"
  from Cons.prems a res have "try_vans vans pkgs ?best = Inr (Some (v, d, f, r, nc))"
    by simp
  from Cons.IH [OF this] consider
    (new) "?best = Some (v, d, f, r, nc)"
    | (old) "\<exists>van st'. attempt van pkgs = Inr ((d, f, r), st') \<and> nc = not_completed st'"
    by blast
  then show ?case
  proof cases
    case old
    then show ?thesis by blast
  next
    case new
    show ?thesis
    proof (cases "?best = best")
      case True
      with new show ?thesis by simp
    next
      case False
      then have "?best = Some (van, dist, fuel, rt, not_completed st')"
        by (simp split: if_splits)
      with new have "dist = d" "fuel = f" "rt = r" "nc = not_completed st'" by simp_all
      with a res have "attempt van pkgs = Inr ((d, f, r), st') \<and> nc = not_completed st'"
        by simp
      then show ?thesis by blast
    qed
  qed
qed

lemma try_vans_Inr: "\<exists>b. try_vans vans pkgs best = Inr b"
proof (induction vans arbitrary: best)
  case Nil
  show ?case by simp
next
  case (Cons van vans)
  obtain res st' where a: "attempt van pkgs = Inr (res, st')"
    using attempt_Inr by blast
  obtain dist fuel rt where res: "res = (dist, fuel, rt)" by (cases res)
  from a res Cons.IH show ?case by simp
qed

lemma single_van_weights:
  "(case find_optimal_route_for_single_van vans pkgs0 of
      Inl e \<Rightarrow> False
    | Inr (chosen, dist, fuel, rt, nc) \<Rightarrow>
        mset (dropped_weights rt) + mset (map (\<lambda>p. snd (snd p)) nc)
          = mset (map (\<lambda>p. snd (snd p)) (filter valid_package pkgs0)))"
proof (cases "filter valid_package pkgs0 = []")
  case True
  then show ?thesis
    by (simp add: find_optimal_route_for_single_van_def filter_invalid_input_def
                  dropped_weights_trivial)
next
  case False
  obtain b where b: "try_vans (filter valid_van vans) (filter valid_package pkgs0) None = Inr b"
    using try_vans_Inr by blast
  show ?thesis
  proof (cases b)
    case None
    with b False show ?thesis
      by (simp add: find_optimal_route_for_single_van_def filter_invalid_input_def
                    dropped_weights_trivial)
  next
    case (Some t)
    obtain v d f r nc where t: "t = (v, d, f, r, nc)" by (cases t)
    from try_vans_from_attempt [OF b [unfolded Some t]] obtain van st' where
      "attempt van (filter valid_package pkgs0) = Inr ((d, f, r), st')" "nc = not_completed st'"
      by auto
    from attempt_weights [OF this(1)] this(2)
    have w: "mset (dropped_weights r) + mset (map (\<lambda>p. snd (snd p)) nc)
          = mset (map (\<lambda>p. snd (snd p)) (filter valid_package pkgs0))"
      by simp
    show ?thesis
    proof (cases "r = []")
      case True
      with b Some t False show ?thesis
        by (simp add: find_optimal_route_for_single_van_def filter_invalid_input_def
                      dropped_weights_trivial)
    next
      case nonempty: False
      with b Some t False w show ?thesis
        by (simp add: find_optimal_route_for_single_van_def filter_invalid_input_def)
    qed
  qed
qed

lemma single_van_pool_shrinks:
  assumes "find_optimal_route_for_single_van vans pool = Inr (chosen, d, f, rt, nc)"
  shows "length nc \<le> length pool"
proof -
  from single_van_weights [where vans = vans and ?pkgs0.0 = pool] assms
  have "mset (dropped_weights rt) + mset (map (\<lambda>p. snd (snd p)) nc)
          = mset (map (\<lambda>p. snd (snd p)) (filter valid_package pool))"
    by simp
  then have "size (mset (dropped_weights rt) + mset (map (\<lambda>p. snd (snd p)) nc))
          = size (mset (map (\<lambda>p. snd (snd p)) (filter valid_package pool)))"
    by (rule arg_cong)
  then have "length (dropped_weights rt) + length nc = length (filter valid_package pool)"
    by (simp only: size_union size_mset length_map)
  moreover have "length (filter valid_package pool) \<le> length pool" by (rule length_filter_le)
  ultimately show ?thesis by linarith
qed

section \<open>Served, pending and outside packages\<close>

lemma pairs_snoc:
  "pick_pairs (rt @ [(l, a, w)]) = (if a = ''pick'' then pick_pairs rt @ [(l, w)] else pick_pairs rt)"
  "drop_pairs (rt @ [(l, a, w)]) = (if a = ''drop'' then drop_pairs rt @ [(l, w)] else drop_pairs rt)"
  by (simp_all add: pick_pairs_def drop_pairs_def)

lemma apply_move_pick_find:
  assumes "apply_move st (d, l, ''pick'', w) = Inr st'"
  shows "\<exists>dl w'. (l, dl, w') \<in> set (packages st) \<and> deliveries st' = deliveries st @ [(dl, w)]"
proof -
  from assms obtain p dl w' where f: "find (\<lambda>(p, d, w). p = l) (packages st) = Some (p, dl, w')"
    and d: "deliveries st' = deliveries st @ [(dl, w)]"
    by (auto simp: apply_move_def Let_def split: if_splits option.splits)
  from f have "(p, dl, w') \<in> set (packages st)" "p = l"
    by (auto simp: find_Some_iff in_set_conv_nth)
  with d show ?thesis by blast
qed

lemma distinct_fst_unique:
  assumes "distinct (map fst xs)" "x \<in> set xs" "y \<in> set xs" "fst x = fst y"
  shows "x = y"
  using assms by (metis eq_key_imp_eq_value prod.collapse)

lemma split_of_step:
  assumes "split_of W s S P" "packages s = W"
    and "find_nearest_valid_move s = Inr (Some mv)" "apply_move s mv = Inr s'"
  shows "\<exists>S' P'. split_of W s' S' P'"
  using assms(3,4)
proof (cases rule: loop_step_cases)
  case (pick d l w dl)
  from assms(1) have sp: "mset W = S + P" "mset (pickups s) = image_mset pickup_weight P"
    "mset (pick_pairs (route s)) = image_mset pickup_weight S"
    "mset (dropped_weights (route s)) + mset (map snd (deliveries s))
         = image_mset (\<lambda>p. snd (snd p)) S"
    by (simp_all add: split_of_def)
  define Q where "Q = remove1 (l, w) (pickups s)"
  have q: "mset (pickups s) = add_mset (l, w) (mset Q)"
    unfolding Q_def using pick(2) by simp
  have s': "pickups s' = Q" "route s' = route s @ [(l, ''pick'', w)]"
    "deliveries s' = deliveries s @ [(dl, w)]"
    unfolding Q_def using pick(5) by simp_all
  have "(l, w) \<in># image_mset pickup_weight P" using q sp(2) by (metis union_single_eq_member)
  then obtain pkg where pkg: "pkg \<in># P" "pickup_weight pkg = (l, w)" by auto
  then obtain P' where P': "P = add_mset pkg P'" by (meson mset_add)
  have pw: "fst pkg = l" "snd (snd pkg) = w" using pkg(2) by (simp_all add: pickup_weight_def)
  have a: "mset W = add_mset pkg S + P'" using sp(1) P' by simp
  have "add_mset (l, w) (mset Q) = add_mset (l, w) (image_mset pickup_weight P')"
    using q sp(2) P' pkg(2) by simp
  then have b: "mset (pickups s') = image_mset pickup_weight P'"
    using s'(1) by simp
  have c: "mset (pick_pairs (route s')) = image_mset pickup_weight (add_mset pkg S)"
    using s'(2) sp(3) pkg(2) by (simp add: pairs_snoc)
  have e: "mset (dropped_weights (route s')) + mset (map snd (deliveries s'))
         = image_mset (\<lambda>p. snd (snd p)) (add_mset pkg S)"
    using s'(2,3) sp(4) pw by (simp add: dropped_weights_snoc)
  have f: "mset (drop_pairs (route s')) + mset (deliveries s')
      = image_mset delivery_weight (add_mset pkg S)"
    if dis: "distinct (map fst W)"
  proof -
    from assms(4) pick(1) obtain dl' w' where
      m: "(l, dl', w') \<in> set (packages s)" "deliveries s' = deliveries s @ [(dl', w)]"
      using apply_move_pick_find by blast
    have "pkg \<in># mset W" unfolding a by simp
    then have "pkg \<in> set W" by simp
    with m(1) assms(2) dis pw(1) have "pkg = (l, dl', w')"
      by (intro distinct_fst_unique [of W]) simp_all
    then have "delivery_weight pkg = (dl', w)" using pw(2) by (simp add: delivery_weight_def)
    moreover from assms(1) dis have "mset (drop_pairs (route s)) + mset (deliveries s)
        = image_mset delivery_weight S"
      by (simp add: split_of_def)
    ultimately show ?thesis using s'(2) m(2) by (simp add: pairs_snoc)
  qed
  from a b c e f have "split_of W s' (add_mset pkg S) P'" by (simp add: split_of_def)
  then show ?thesis by blast
next
  case (drop d l w)
  define D where "D = remove1 (l, w) (deliveries s)"
  have d: "mset (deliveries s) = add_mset (l, w) (mset D)"
    unfolding D_def using drop(2) by simp
  then have "image_mset snd (mset (deliveries s)) = image_mset snd (add_mset (l, w) (mset D))"
    by (rule arg_cong)
  then have dw: "mset (map snd (deliveries s)) = add_mset w (mset (map snd D))" by simp
  have s': "pickups s' = pickups s" "route s' = route s @ [(l, ''drop'', w)]"
    "deliveries s' = D"
    unfolding D_def using drop(4) by simp_all
  from assms(1) have sp: "mset W = S + P" "mset (pickups s) = image_mset pickup_weight P"
    "mset (pick_pairs (route s)) = image_mset pickup_weight S"
    "mset (dropped_weights (route s)) + mset (map snd (deliveries s))
         = image_mset (\<lambda>p. snd (snd p)) S"
    by (simp_all add: split_of_def)
  have c: "mset (pick_pairs (route s')) = image_mset pickup_weight S"
    using s'(2) sp(3) by (simp add: pairs_snoc)
  have e: "mset (dropped_weights (route s')) + mset (map snd (deliveries s'))
         = image_mset (\<lambda>p. snd (snd p)) S"
    using sp(4) unfolding s' dw by (simp add: dropped_weights_snoc)
  have f: "mset (drop_pairs (route s')) + mset (deliveries s') = image_mset delivery_weight S"
    if dis: "distinct (map fst W)"
  proof -
    from assms(1) dis have "mset (drop_pairs (route s)) + mset (deliveries s)
        = image_mset delivery_weight S"
      by (simp add: split_of_def)
    then show ?thesis unfolding s' d by (simp add: pairs_snoc)
  qed
  from sp(1,2) s'(1) c e f have "split_of W s' S P" by (simp add: split_of_def)
  then show ?thesis by blast
qed

lemma counted_step:
  assumes "counted W s"
    and "find_nearest_valid_move s = Inr (Some mv)" "apply_move s mv = Inr s'"
  shows "counted W s'"
  using assms(2,3)
proof (cases rule: loop_step_cases)
  case (pick d l w dl)
  from pick(2) have "length (remove1 (l, w) (pickups s)) = length (pickups s) - 1"
    by (simp add: length_remove1)
  moreover from pick(2) have "0 < length (pickups s)" by (rule length_pos_if_in_set)
  ultimately have "Suc (length (remove1 (l, w) (pickups s))) = length (pickups s)" by simp
  with assms(1) pick(5) show ?thesis by (simp add: counted_def)
next
  case (drop d l w)
  from drop(2) have "length (remove1 (l, w) (deliveries s)) = length (deliveries s) - 1"
    by (simp add: length_remove1)
  moreover from drop(2) have "0 < length (deliveries s)" by (rule length_pos_if_in_set)
  ultimately have "Suc (length (remove1 (l, w) (deliveries s))) = length (deliveries s)" by simp
  with assms(1) drop(4) show ?thesis by (simp add: counted_def)
qed

lemma counted_exit:
  assumes "counted W s" "length W \<le> 5" "\<not> active s"
  shows "pickups s = []" "deliveries s = []"
proof -
  from assms(3) consider "pickups s = [] \<and> deliveries s = []"
    | "\<not> picked_up_packages s + delivered_packages s < 10"
    by (auto simp: active_def)
  then have "length (pickups s) = 0 \<and> length (deliveries s) = 0"
  proof cases
    case 1
    then show ?thesis by simp
  next
    case 2
    with assms(1,2) show ?thesis unfolding counted_def by arith
  qed
  then show "pickups s = []" "deliveries s = []" by simp_all
qed

lemma pairs_trivial:
  "pick_pairs [] = []" "drop_pairs [] = []"
  "pick_pairs [(0, ''start'', 0)] = []" "drop_pairs [(0, ''start'', 0)] = []"
  "pick_pairs [(0, ''start'', 0), (0, ''end'', 0)] = []"
  "drop_pairs [(0, ''start'', 0), (0, ''end'', 0)] = []"
  by (simp_all add: pick_pairs_def drop_pairs_def)

lemma distinct_fst_part:
  assumes "mset xs + mset ys = mset zs" "distinct (map fst zs)"
  shows "distinct (map fst xs)"
proof -
  from assms(1) have "mset (map fst (xs @ ys)) = mset (map fst zs)"
    by (metis mset_append mset_map)
  then have "distinct (map fst (xs @ ys))" using assms(2)
    by (metis mset_eq_imp_distinct_iff)
  then show ?thesis by simp
qed

lemma pending_self_referential:
  assumes "mset (pickups s) = image_mset pickup_weight P" "deliveries s = []"
  shows "mset (pending s) = image_mset self_referential P"
proof -
  have "mset (pending s) = image_mset (\<lambda>(loc, weight). (loc, loc, weight)) (mset (pickups s))"
    using assms(2) by (simp add: pending_def)
  also have "\<dots> = image_mset ((\<lambda>(loc, weight). (loc, loc, weight)) \<circ> pickup_weight) P"
    unfolding assms(1) by (simp add: multiset.map_comp)
  also have "(\<lambda>(loc, weight). (loc, loc, weight)) \<circ> pickup_weight = self_referential"
    by (auto simp: pickup_weight_def self_referential_def)
  finally show ?thesis .
qed

lemma VanRouter_fresh:
  assumes "VanRouter van pkgs = Inr st0"
  shows "route st0 = [(0, ''start'', 0)]"
    and "pickups st0 = map (\<lambda>p. (fst p, snd (snd p))) (packages st0)"
    and "deliveries st0 = []"
    and "mset (packages st0) + mset (not_completed st0) = mset pkgs"
    and "picked_up_packages st0 = 0" and "delivered_packages st0 = 0"
    and "length (packages st0) \<le> 5"
proof -
  from VanRouter_Inr [of van pkgs] obtain st where st: "VanRouter van pkgs = Inr st"
    "route st = [(0, ''start'', 0)]"
    "pickups st = map (\<lambda>p. (fst p, snd (snd p))) (packages st)"
    "deliveries st = []"
    "mset (packages st) + mset (not_completed st) = mset pkgs"
    "picked_up_packages st = 0" "delivered_packages st = 0"
    "length (packages st) = min 5 (length pkgs)"
    by blast
  from st(1) assms have eq: "st = st0" by simp
  from st(2-7) show "route st0 = [(0, ''start'', 0)]"
    "pickups st0 = map (\<lambda>p. (fst p, snd (snd p))) (packages st0)"
    "deliveries st0 = []"
    "mset (packages st0) + mset (not_completed st0) = mset pkgs"
    "picked_up_packages st0 = 0" "delivered_packages st0 = 0"
    unfolding eq by simp_all
  from st(8) show "length (packages st0) \<le> 5" unfolding eq by simp
qed

lemma map_pickup_weight:
  "map (\<lambda>p. (fst p, snd (snd p))) xs = map pickup_weight xs"
  by (induction xs) (simp_all add: pickup_weight_def)

lemma attempt_split:
  assumes "attempt van pkgs = Inr ((dist, fuel, rt), st')"
  shows "\<exists>S P R. mset pkgs = S + P + R
          \<and> mset (not_completed st') = R + image_mset self_referential P
          \<and> mset (pick_pairs rt) = image_mset pickup_weight S
          \<and> mset (dropped_weights rt) = image_mset (\<lambda>p. snd (snd p)) S
          \<and> (distinct (map fst pkgs) \<longrightarrow>
               mset (drop_pairs rt) = image_mset delivery_weight S)"
proof -
  obtain st0 res st'' n s where st0: "VanRouter van pkgs = Inr st0"
    and run: "attempt van pkgs = Inr (res, st'')"
    and it: "after_iterations n st0 = Some s"
    and res: "res = (total_distance st'', total_fuel st'', route st'')"
    and fin: "active s \<and> find_nearest_valid_move s = Inr None \<and> st'' = give_up s
              \<or> \<not> active s \<and> st'' = return_to_depot s"
    by (rule attempt_final)
  from run assms res have eq: "st'' = st'" "rt = route st'" by simp_all
  define W where "W = packages st0"
  note init = VanRouter_fresh [OF st0, folded W_def]
  let ?I = "\<lambda>s. packages s = W \<and> not_completed s = not_completed st0 \<and> counted W s
              \<and> (\<exists>S P. split_of W s S P)"
  have "pickups st0 = map pickup_weight W"
    unfolding init(2) by (rule map_pickup_weight)
  then have "split_of W st0 {#} (mset W)"
    by (simp add: split_of_def init(1,3) pairs_trivial dropped_weights_trivial)
  then have "\<exists>S P. split_of W st0 S P" by (intro exI)
  moreover have "counted W st0"
    using init(2,3,5,6) by (simp add: counted_def)
  ultimately have "?I st0"
    by (simp add: W_def)
  with it have inv: "?I s"
  proof (rule after_iterations_invariant)
    fix s mv s'
    assume i: "?I s" and step: "find_nearest_valid_move s = Inr (Some mv)"
      "apply_move s mv = Inr s'"
    from i obtain S P where sp: "split_of W s S P" by blast
    from i have pk: "packages s = W" and nc: "not_completed s = not_completed st0"
      and cn: "counted W s"
      by simp_all
    from step have same: "packages s' = packages s" "not_completed s' = not_completed s"
      by (cases rule: loop_step_cases; simp)+
    have cn': "counted W s'" using cn step by (rule counted_step)
    have sp': "\<exists>S' P'. split_of W s' S' P'"
      using sp pk step by (rule split_of_step)
    from same pk nc cn' sp' show "?I s'" by simp
  qed
  then obtain S P where sp: "split_of W s S P" by blast
  from inv have c: "counted W s" and nc: "not_completed s = not_completed st0" by simp_all
  have empty: "deliveries s = []"
  proof (cases "active s")
    case True
    with fin have "find_nearest_valid_move s = Inr None" by simp
    then show ?thesis by (simp add: find_nearest_valid_move_None delivery_heap_Nil)
  next
    case False
    with c init(7) show ?thesis by (intro counted_exit(2) [of W s])
  qed
  have out: "not_completed st'' = not_completed st0 @ pending s
    \<and> pick_pairs (route st'') = pick_pairs (route s)
    \<and> drop_pairs (route st'') = drop_pairs (route s)
    \<and> dropped_weights (route st'') = dropped_weights (route s)"
  proof (cases "st'' = give_up s")
    case True
    with nc show ?thesis by (simp add: give_up_def)
  next
    case False
    with fin have "st'' = return_to_depot s" by blast
    with nc show ?thesis
      by (simp add: return_to_depot_def pairs_snoc dropped_weights_snoc)
  qed
  from sp have parts: "mset W = S + P" "mset (pickups s) = image_mset pickup_weight P"
    "mset (pick_pairs (route s)) = image_mset pickup_weight S"
    "mset (dropped_weights (route s)) + mset (map snd (deliveries s))
         = image_mset (\<lambda>p. snd (snd p)) S"
    by (simp_all add: split_of_def)
  have a: "mset pkgs = S + P + mset (not_completed st0)"
    using init(4) parts(1) by simp
  have b: "mset (not_completed st') = mset (not_completed st0) + image_mset self_referential P"
    using out pending_self_referential [OF parts(2) empty] eq(1) by simp
  have d: "mset (dropped_weights rt) = image_mset (\<lambda>p. snd (snd p)) S"
    using parts(4) empty out eq by simp
  have e: "mset (pick_pairs rt) = image_mset pickup_weight S"
    using parts(3) out eq by simp
  have f: "mset (drop_pairs rt) = image_mset delivery_weight S" if "distinct (map fst pkgs)"
  proof -
    from init(4) that have "distinct (map fst W)" by (rule distinct_fst_part)
    with sp have "mset (drop_pairs (route s)) + mset (deliveries s) = image_mset delivery_weight S"
      by (simp add: split_of_def)
    with empty out eq show ?thesis by simp
  qed
  show ?thesis
  proof (intro exI conjI impI)
    show "mset pkgs = S + P + mset (not_completed st0)" by (rule a)
    show "mset (not_completed st') = mset (not_completed st0) + image_mset self_referential P"
      by (rule b)
    show "mset (pick_pairs rt) = image_mset pickup_weight S" by (rule e)
    show "mset (dropped_weights rt) = image_mset (\<lambda>p. snd (snd p)) S" by (rule d)
    show "mset (drop_pairs rt) = image_mset delivery_weight S" if "distinct (map fst pkgs)"
      using that by (rule f)
  qed
qed

lemma single_van_split:
  "(case find_optimal_route_for_single_van vans pkgs0 of
      Inl e \<Rightarrow> False
    | Inr (chosen, dist, fuel, rt, nc) \<Rightarrow>
        (\<exists>served pending outside.
            mset (filter valid_package pkgs0) = served + pending + outside
          \<and> mset nc = outside + image_mset self_referential pending
          \<and> mset (pick_pairs rt) = image_mset pickup_weight served
          \<and> mset (dropped_weights rt) = image_mset (\<lambda>p. snd (snd p)) served
          \<and> (distinct (map fst (filter valid_package pkgs0)) \<longrightarrow>
               mset (drop_pairs rt) = image_mset delivery_weight served)))"
proof -
  let ?pkgs = "filter valid_package pkgs0"
  let ?Q = "\<lambda>rt nc. \<exists>served pending outside.
            mset ?pkgs = served + pending + outside
          \<and> mset nc = outside + image_mset self_referential pending
          \<and> mset (pick_pairs rt) = image_mset pickup_weight served
          \<and> mset (dropped_weights rt) = image_mset (\<lambda>p. snd (snd p)) served
          \<and> (distinct (map fst ?pkgs) \<longrightarrow>
               mset (drop_pairs rt) = image_mset delivery_weight served)"
  have none: "?Q [] ?pkgs"
    by (intro exI [of _ "{#}"] exI [of _ "mset ?pkgs"])
       (simp add: pairs_trivial dropped_weights_trivial)
  show ?thesis
  proof (cases "?pkgs = []")
    case True
    have "?Q [(0, ''start'', 0), (0, ''end'', 0)] []" "?Q [] []"
      unfolding True by (simp_all add: pairs_trivial dropped_weights_trivial)
    with True show ?thesis
      by (simp add: find_optimal_route_for_single_van_def filter_invalid_input_def)
  next
    case False
    obtain b where b: "try_vans (filter valid_van vans) ?pkgs None = Inr b"
      using try_vans_Inr by blast
    show ?thesis
    proof (cases b)
      case None
      with b False none show ?thesis
        by (simp add: find_optimal_route_for_single_van_def filter_invalid_input_def)
    next
      case (Some t)
      obtain v d f r nc where t: "t = (v, d, f, r, nc)" by (cases t)
      from try_vans_from_attempt [OF b [unfolded Some t]] obtain van st' where
        at: "attempt van ?pkgs = Inr ((d, f, r), st')" "nc = not_completed st'"
        by auto
      from attempt_split [OF at(1)] at(2) have q: "?Q r nc" by simp
      show ?thesis
      proof (cases "r = []")
        case True
        with b Some t False none show ?thesis
          by (simp add: find_optimal_route_for_single_van_def filter_invalid_input_def)
      next
        case nonempty: False
        with b Some t False q show ?thesis
          by (simp add: find_optimal_route_for_single_van_def filter_invalid_input_def)
      qed
    qed
  qed
qed

section \<open>The multi-van allocator\<close>

lemma allocate_stops:
  assumes "allocate pre st = Inr st1"
    and "remaining_packages st1 \<noteq> []"
    and "find_optimal_route_for_single_van [van] (remaining_packages st1)
           = Inr (None, dist, fuel, rt, nc)"
  shows "allocate (pre @ van # post) st = Inr st1"
  using assms(1)
proof (induction pre arbitrary: st)
  case Nil
  with assms(2,3) show ?case by simp
next
  case (Cons v pre)
  from Cons.prems assms(2) have ne: "remaining_packages st \<noteq> []"
    by (auto split: if_splits)
  show ?case
  proof (cases "find_optimal_route_for_single_van [v] (remaining_packages st)")
    case (Inl e)
    with Cons.prems ne show ?thesis by simp
  next
    case (Inr r)
    obtain chosen d f r' nc' where r: "r = (chosen, d, f, r', nc')" by (cases r)
    show ?thesis
    proof (cases chosen)
      case None
      with Inr r Cons.prems ne show ?thesis by simp
    next
      case (Some bv)
      with Inr r Cons.prems ne Cons.IH show ?thesis by simp
    qed
  qed
qed

lemma try_vans_chosen:
  assumes "try_vans vans pkgs best = Inr (Some (v, d, f, r, nc))"
  shows "v \<in> set vans \<or> best = Some (v, d, f, r, nc)"
  using assms
proof (induction vans arbitrary: best)
  case Nil
  then show ?case by simp
next
  case (Cons van vans)
  obtain res st' where a: "attempt van pkgs = Inr (res, st')"
    using attempt_Inr by blast
  obtain dist fuel rt where res: "res = (dist, fuel, rt)" by (cases res)
  let ?best = "if (case best of None \<Rightarrow> True
                            | Some (bv, bd, best_fuel, br, bn) \<Rightarrow> fuel < best_fuel)
                \<and> picked_up_packages st' > 0
             then Some (van, dist, fuel, rt, not_completed st')
             else best"
  from Cons.prems a res have "try_vans vans pkgs ?best = Inr (Some (v, d, f, r, nc))"
    by simp
  from Cons.IH [OF this] show ?case by (auto split: if_splits)
qed

lemma single_van_chosen:
  assumes "find_optimal_route_for_single_van vans pkgs = Inr (Some v, d, f, r, nc)"
  shows "v \<in> set vans"
proof (cases "filter valid_package pkgs = []")
  case True
  with assms have "filter valid_van vans \<noteq> []" "v = filter valid_van vans ! 0"
    by (auto simp: find_optimal_route_for_single_van_def filter_invalid_input_def
             split: if_splits)
  then have "v \<in> set (filter valid_van vans)" by (metis nth_mem length_greater_0_conv)
  then show ?thesis by simp
next
  case False
  with assms obtain d' f' r' nc' where
    "try_vans (filter valid_van vans) (filter valid_package pkgs) None
       = Inr (Some (v, d', f', r', nc'))"
    by (auto simp: find_optimal_route_for_single_van_def filter_invalid_input_def
             split: sum.splits option.splits if_splits)
  from try_vans_chosen [OF this] show ?thesis by simp
qed

lemma allocate_vans_used:
  assumes "allocate vs st = Inr st'"
  shows "\<exists>us. vans_used st' = vans_used st @ us \<and> set us \<subseteq> set vs
           \<and> length us \<le> length vs"
  using assms
proof (induction vs arbitrary: st)
  case Nil
  then show ?case by simp
next
  case (Cons v vs)
  show ?case
  proof (cases "remaining_packages st = []")
    case True
    with Cons.prems show ?thesis by simp
  next
    case ne: False
    show ?thesis
    proof (cases "find_optimal_route_for_single_van [v] (remaining_packages st)")
      case (Inl e)
      with Cons.prems ne show ?thesis by simp
    next
      case (Inr r)
      obtain chosen d f r' nc' where r: "r = (chosen, d, f, r', nc')" by (cases r)
      show ?thesis
      proof (cases chosen)
        case None
        with Inr r Cons.prems ne show ?thesis by simp
      next
        case (Some bv)
        from single_van_chosen [OF Inr [unfolded r Some]] have bv: "bv = v" by simp
        let ?st = "st \<lparr> vans_used := vans_used st @ [bv],
                      sum_distance := sum_distance st + d,
                      sum_fuel := sum_fuel st + f,
                      routes := routes st @ [r'],
                      remaining_packages := nc' \<rparr>"
        from Some Inr r Cons.prems ne have "allocate vs ?st = Inr st'" by simp
        from Cons.IH [OF this] obtain us where
          "vans_used st' = vans_used ?st @ us" "set us \<subseteq> set vs" "length us \<le> length vs"
          by blast
        then have "vans_used st' = vans_used st @ (v # us)" "set (v # us) \<subseteq> set (v # vs)"
          "length (v # us) \<le> length (v # vs)"
          using bv by auto
        then show ?thesis by blast
      qed
    qed
  qed
qed

lemma single_van_Inr: "\<exists>r. find_optimal_route_for_single_van vans pkgs = Inr r"
proof (cases "find_optimal_route_for_single_van vans pkgs")
  case (Inl e)
  with single_van_weights [where vans = vans and ?pkgs0.0 = pkgs] show ?thesis by simp
next
  case (Inr r)
  then show ?thesis by (intro exI)
qed

lemma allocate_used:
  assumes "remaining_packages st \<noteq> []"
    and "find_optimal_route_for_single_van [van] (remaining_packages st)
           = Inr (Some v, d, f, r, nc)"
  shows "v = van"
    and "allocate (van # rest) st
          = allocate rest
              (st \<lparr> vans_used := vans_used st @ [van],
                     sum_distance := sum_distance st + d,
                     sum_fuel := sum_fuel st + f,
                     routes := routes st @ [r],
                     remaining_packages := nc \<rparr>)"
proof -
  from single_van_chosen [OF assms(2)] show v: "v = van" by simp
  from assms show "allocate (van # rest) st
          = allocate rest
              (st \<lparr> vans_used := vans_used st @ [van],
                     sum_distance := sum_distance st + d,
                     sum_fuel := sum_fuel st + f,
                     routes := routes st @ [r],
                     remaining_packages := nc \<rparr>)"
    unfolding v by simp
qed

lemma allocate_empty_pool: "remaining_packages st = [] \<Longrightarrow> allocate vs st = Inr st"
  by (cases vs) simp_all

lemma allocate_Inr: "\<exists>st'. allocate vs st = Inr st'"
proof (induction vs arbitrary: st)
  case Nil
  show ?case by simp
next
  case (Cons v vs)
  show ?case
  proof (cases "remaining_packages st = []")
    case True
    then show ?thesis by simp
  next
    case ne: False
    obtain r where r: "find_optimal_route_for_single_van [v] (remaining_packages st) = Inr r"
      using single_van_Inr by blast
    obtain chosen d f r' nc' where t: "r = (chosen, d, f, r', nc')" by (cases r)
    show ?thesis
    proof (cases chosen)
      case None
      with r t ne show ?thesis by simp
    next
      case (Some bv)
      with r t ne Cons.IH show ?thesis by simp
    qed
  qed
qed

lemma allocate_prefix:
  assumes "allocate vs st = Inr st'"
  shows "\<exists>k \<le> length vs. vans_used st' = vans_used st @ take k vs
           \<and> length (routes st') = length (routes st) + k
           \<and> (k < length vs \<longrightarrow>
                remaining_packages st' = []
                \<or> (\<exists>d f r nc. find_optimal_route_for_single_van [vs ! k]
                       (remaining_packages st') = Inr (None, d, f, r, nc)))"
  using assms
proof (induction vs arbitrary: st)
  case Nil
  then show ?case by simp
next
  case (Cons v vs)
  show ?case
  proof (cases "remaining_packages st = []")
    case True
    with Cons.prems have "st' = st" by simp
    with True show ?thesis by (intro exI [of _ 0]) simp
  next
    case ne: False
    show ?thesis
    proof (cases "find_optimal_route_for_single_van [v] (remaining_packages st)")
      case (Inl e)
      with Cons.prems ne show ?thesis by simp
    next
      case (Inr r)
      obtain chosen d f r' nc' where t: "r = (chosen, d, f, r', nc')" by (cases r)
      show ?thesis
      proof (cases chosen)
        case None
        with Inr t Cons.prems ne have eq: "st' = st" by simp
        from Inr t None have "\<exists>d f r nc. find_optimal_route_for_single_van [(v # vs) ! 0]
                       (remaining_packages st) = Inr (None, d, f, r, nc)"
          by simp
        with eq show ?thesis by (intro exI [of _ 0]) simp
      next
        case (Some bv)
        let ?st = "st \<lparr> vans_used := vans_used st @ [v],
                      sum_distance := sum_distance st + d,
                      sum_fuel := sum_fuel st + f,
                      routes := routes st @ [r'],
                      remaining_packages := nc' \<rparr>"
        from allocate_used(2) [OF ne Inr [unfolded t Some], of vs] Cons.prems
        have "allocate vs ?st = Inr st'" by simp
        from Cons.IH [OF this] obtain k where k: "k \<le> length vs"
          "vans_used st' = vans_used ?st @ take k vs"
          "length (routes st') = length (routes ?st) + k"
          "k < length vs \<longrightarrow>
                remaining_packages st' = []
                \<or> (\<exists>d f r nc. find_optimal_route_for_single_van [vs ! k]
                       (remaining_packages st') = Inr (None, d, f, r, nc))"
          by blast
        show ?thesis
        proof (intro exI [of _ "Suc k"] conjI)
          show "Suc k \<le> length (v # vs)" using k(1) by simp
          show "vans_used st' = vans_used st @ take (Suc k) (v # vs)" using k(2) by simp
          show "length (routes st') = length (routes st) + Suc k" using k(3) by simp
          show "Suc k < length (v # vs) \<longrightarrow>
                remaining_packages st' = []
                \<or> (\<exists>d f r nc. find_optimal_route_for_single_van [(v # vs) ! Suc k]
                       (remaining_packages st') = Inr (None, d, f, r, nc))"
            using k(4) by simp
        qed
      qed
    qed
  qed
qed

section \<open>Scenario A\<close>

text \<open>
  C1. For the vans [(10,10),(9,8)] and the packages [(-1,5,4),(6,2,9),(-2,9,3)] the
  single-van optimizer returns the van (9,8), a route whose (location, action)
  projection is start at 0, pick at -1, pick at -2, drop at 5, drop at 9, pick at 6,
  drop at 2, end at 0, the total distance 22 and the total fuel 176.
\<close>

theorem scenario_A:
  "(case find_optimal_route_for_single_van [(10, 10), (9, 8)]
           [(- 1, 5, 4), (6, 2, 9), (- 2, 9, 3)] of
      Inl e \<Rightarrow> False
    | Inr (chosen, dist, fuel, rt, nc) \<Rightarrow>
        chosen = Some (9, 8)
        \<and> map (\<lambda>(loc, action, weight). (loc, action)) rt =
            [(0, ''start''), (- 1, ''pick''), (- 2, ''pick''), (5, ''drop''),
             (9, ''drop''), (6, ''pick''), (2, ''drop''), (0, ''end'')]
        \<and> dist = 22 \<and> fuel = 176)"
  by code_simp

section \<open>Capacity invariant\<close>

text \<open>
  C2. For a van whose capacity passes the input filter and packages that pass it, the
  attempt returns a route, and after every prefix of that route the cumulative load
  (the weights picked minus the weights dropped) is at most the capacity of the van.
  In any state of the router, a pick move is only chosen when the current load plus
  its weight is at most the capacity.
\<close>

theorem capacity_invariant:
  assumes "0 < fst van" and "\<forall>p \<in> set pkgs. valid_package p"
  shows "(case attempt van pkgs of
            Inl e \<Rightarrow> False
          | Inr ((dist, fuel, rt), st') \<Rightarrow>
              \<forall>k \<le> length rt. cumulative_load (take k rt) \<le> fst van)
       \<and> (\<forall>st d l w. find_nearest_valid_move st = Inr (Some (d, l, ''pick'', w))
              \<longrightarrow> current_load st + w \<le> van_capacity st)"
proof
  obtain st0 res st' n s where st0: "VanRouter van pkgs = Inr st0"
    and run: "attempt van pkgs = Inr (res, st')"
    and it: "after_iterations n st0 = Some s"
    and res: "res = (total_distance st', total_fuel st', route st')"
    and fin: "active s \<and> find_nearest_valid_move s = Inr None \<and> st' = give_up s
              \<or> \<not> active s \<and> st' = return_to_depot s"
    by (rule attempt_final)
  let ?I = "\<lambda>s. positive_weights s \<and> van_capacity s = fst van
              \<and> current_load s = cumulative_load (route s)
              \<and> (\<forall>k \<le> length (route s). cumulative_load (take k (route s)) \<le> fst van)"
  note w = VanRouter_window_subset [OF st0]
  have "\<forall>k \<le> length (route st0). cumulative_load (take k (route st0)) \<le> fst van"
    using assms(1) by (simp add: w(6) cumulative_load_def load_change_def take_Cons')
  then have "?I st0"
    using positive_weights_init [OF assms(2) st0]
    by (simp add: w cumulative_load_def load_change_def)
  with it have "?I s"
  proof (rule after_iterations_invariant)
    fix s mv s'
    assume inv: "?I s" and step: "find_nearest_valid_move s = Inr (Some mv)"
      "apply_move s mv = Inr s'"
    from inv have whole: "cumulative_load (route s) \<le> fst van" by auto
    from step have "van_capacity s' = fst van
        \<and> current_load s' = cumulative_load (route s')
        \<and> (\<forall>k \<le> length (route s'). cumulative_load (take k (route s')) \<le> fst van)"
    proof (cases rule: loop_step_cases)
      case (pick d l w dl)
      have "cumulative_load (route s @ [(l, ''pick'', w)]) = current_load s + w"
        using inv by (simp add: cumulative_load_snoc load_change_def)
      moreover from this pick(3) inv
      have "\<forall>k \<le> length (route s @ [(l, ''pick'', w)]).
              cumulative_load (take k (route s @ [(l, ''pick'', w)])) \<le> fst van"
        by (intro take_snoc_le) simp_all
      ultimately show ?thesis using inv pick(5) by simp
    next
      case (drop d l w)
      from drop(2) inv have "0 < w" by (force simp: positive_weights_def)
      have c: "cumulative_load (route s @ [(l, ''drop'', w)]) = current_load s - w"
        using inv by (simp add: cumulative_load_snoc load_change_def)
      moreover from c whole \<open>0 < w\<close> inv
      have "\<forall>k \<le> length (route s @ [(l, ''drop'', w)]).
              cumulative_load (take k (route s @ [(l, ''drop'', w)])) \<le> fst van"
        by (intro take_snoc_le) simp_all
      ultimately show ?thesis using inv drop(4) by simp
    qed
    with positive_weights_step [OF _ step] inv show "?I s'" by simp
  qed
  then have s: "\<forall>k \<le> length (route s). cumulative_load (take k (route s)) \<le> fst van"
    by simp
  have "\<forall>k \<le> length (route st'). cumulative_load (take k (route st')) \<le> fst van"
  proof (cases "active s")
    case True
    with fin s show ?thesis by (simp add: give_up_def)
  next
    case False
    with fin have r: "route st' = route s @ [(0, ''end'', 0)]"
      by (simp add: return_to_depot_def)
    from s have "cumulative_load (route s) \<le> fst van" by auto
    then have "cumulative_load (route s @ [(0, ''end'', 0)]) \<le> fst van"
      by (simp add: cumulative_load_snoc load_change_def)
    with s show ?thesis unfolding r by (rule take_snoc_le)
  qed
  with run res show "case attempt van pkgs of
            Inl e \<Rightarrow> False
          | Inr ((dist, fuel, rt), st') \<Rightarrow>
              \<forall>k \<le> length rt. cumulative_load (take k rt) \<le> fst van"
    by simp
next
  show "\<forall>st d l w. find_nearest_valid_move st = Inr (Some (d, l, ''pick'', w))
              \<longrightarrow> current_load st + w \<le> van_capacity st"
  proof (intro allI impI)
    fix st d l w
    assume "find_nearest_valid_move st = Inr (Some (d, l, ''pick'', w))"
    from find_nearest_valid_move_Some [OF this]
    show "current_load st + w \<le> van_capacity st"
      by (simp add: pickup_heap_mem)
  qed
qed

theorem capacity_invariant_witness:
  "0 < fst (9 :: int, 8 :: int)
   \<and> list_all valid_package example_packages
   \<and> (case attempt (9, 8) example_packages of
         Inl e \<Rightarrow> False
       | Inr ((dist, fuel, rt), st') \<Rightarrow>
           \<forall>k \<le> length rt. cumulative_load (take k rt) \<le> fst (9 :: int, 8 :: int))
   \<and> find_nearest_valid_move example_router = Inr (Some (1, - 1, ''pick'', 4))
   \<and> current_load example_router + 4 \<le> van_capacity example_router"
proof -
  have c: "0 < fst (9 :: int, 8 :: int)" by simp
  have v: "\<forall>p \<in> set example_packages. valid_package p"
    by (simp add: example_packages_def valid_package_def)
  have mv: "find_nearest_valid_move example_router = Inr (Some (1, - 1, ''pick'', 4))"
    by code_simp
  from capacity_invariant [OF c v] c v mv show ?thesis by (simp add: list_all_iff)
qed

section \<open>Partition law\<close>

text \<open>
  C3, as stated, fails: a package that stays pending is returned in the not-completed
  list as the triple (loc, loc, weight), which is not the package. For the van (5, 1)
  and the packages (1, 2, 3) and (3, 4, 9) the not-completed list is [(3, 3, 9)], and
  (3, 3, 9) is not among the filtered packages, so no multiset of served packages
  completes it to the filtered packages.
\<close>

theorem partition_counterexample:
  "find_optimal_route_for_single_van [(5, 1)] [(1, 2, 3), (3, 4, 9)]
     = Inr (Some (5, 1), 2, 2, [(0, ''start'', 0), (1, ''pick'', 3), (2, ''drop'', 3)],
            [(3, 3, 9)])
   \<and> filter valid_package [(1, 2, 3), (3, 4, 9)] = [(1, 2, 3), (3, 4, 9)]
   \<and> (3, 3, 9) \<notin> set [(1 :: int, 2 :: int, 3 :: int), (3, 4, 9)]"
  by code_simp

text \<open>
  In the multi-van allocator the triple (3, 3, 9) is the pool of the next van, whose
  input filter rejects it: the package of weight 9 is neither dropped by a route nor
  left in the pool.
\<close>

lemma multiple_vans_lose_pending:
  "multiple_vans_loop [(5, 1), (20, 2)] [(1, 2, 3), (3, 4, 9)]
     = Inr \<lparr> vans_used = [(5, 1), (20, 2)], sum_distance = 2, sum_fuel = 2,
             routes = [[(0, ''start'', 0), (1, ''pick'', 3), (2, ''drop'', 3)],
                       [(0, ''start'', 0), (0, ''end'', 0)]],
             remaining_packages = [] \<rparr>"
  by code_simp

text \<open>
  Two packages with the same pickup location: the delivery location of a pick is looked
  up by the pickup location alone, so both are dropped at the delivery location of the
  first, and the package for 9 is dropped at 5.
\<close>

lemma shared_pickup_misdelivery:
  "find_optimal_route_for_single_van [(10, 1)] [(1, 5, 2), (1, 9, 3)]
     = Inr (Some (10, 1), 10, 10,
            [(0, ''start'', 0), (1, ''pick'', 2), (1, ''pick'', 3), (5, ''drop'', 2),
             (5, ''drop'', 3), (0, ''end'', 0)], [])"
  by code_simp

text \<open>
  C3, amended. For every call of the single-van optimizer (it never raises) the filtered
  packages split, as a multiset, into served, pending and outside packages such that:
  the picks of the returned route are the (pickup, weight) pairs of the served packages;
  every weight picked is dropped; the returned not-completed list is the outside
  packages unchanged together with one triple (pickup, pickup, weight) for each pending
  package; and, when the pickup locations of the filtered packages are pairwise
  distinct, the drops of the route are the (delivery, weight) pairs of the served
  packages. Hence the (pickup, weight) pairs of the picks and of the not-completed list
  are those of the filtered packages, and so are the weights of the drops and of the
  not-completed list.
\<close>

theorem single_van_partition:
  "(case find_optimal_route_for_single_van vans pkgs0 of
      Inl e \<Rightarrow> False
    | Inr (chosen, dist, fuel, rt, nc) \<Rightarrow>
        (\<exists>served pending outside.
            mset (filter valid_package pkgs0) = served + pending + outside
          \<and> mset nc = outside + image_mset self_referential pending
          \<and> mset (pick_pairs rt) = image_mset pickup_weight served
          \<and> mset (dropped_weights rt) = image_mset (\<lambda>p. snd (snd p)) served
          \<and> (distinct (map fst (filter valid_package pkgs0)) \<longrightarrow>
               mset (drop_pairs rt) = image_mset delivery_weight served))
        \<and> mset (pick_pairs rt) + image_mset pickup_weight (mset nc)
            = image_mset pickup_weight (mset (filter valid_package pkgs0))
        \<and> mset (dropped_weights rt) + mset (map (\<lambda>p. snd (snd p)) nc)
            = mset (map (\<lambda>p. snd (snd p)) (filter valid_package pkgs0)))"
proof (cases "find_optimal_route_for_single_van vans pkgs0")
  case (Inl e)
  with single_van_split [of pkgs0 vans] show ?thesis by simp
next
  case (Inr r)
  obtain chosen dist fuel rt nc where r: "r = (chosen, dist, fuel, rt, nc)" by (cases r)
  let ?pkgs = "filter valid_package pkgs0"
  from single_van_split [of pkgs0 vans] Inr r obtain served pending outside where
    sp: "mset ?pkgs = served + pending + outside"
      "mset nc = outside + image_mset self_referential pending"
      "mset (pick_pairs rt) = image_mset pickup_weight served"
      "mset (dropped_weights rt) = image_mset (\<lambda>p. snd (snd p)) served"
      "distinct (map fst ?pkgs) \<longrightarrow> mset (drop_pairs rt) = image_mset delivery_weight served"
    by auto
  have ex: "\<exists>served pending outside.
            mset ?pkgs = served + pending + outside
          \<and> mset nc = outside + image_mset self_referential pending
          \<and> mset (pick_pairs rt) = image_mset pickup_weight served
          \<and> mset (dropped_weights rt) = image_mset (\<lambda>p. snd (snd p)) served
          \<and> (distinct (map fst ?pkgs) \<longrightarrow>
               mset (drop_pairs rt) = image_mset delivery_weight served)"
    using sp by (intro exI conjI)
  have "pickup_weight \<circ> self_referential = pickup_weight"
    by (rule ext) (simp add: pickup_weight_def self_referential_def)
  then have "image_mset pickup_weight (image_mset self_referential pending)
      = image_mset pickup_weight pending"
    by (simp add: multiset.map_comp)
  then have "image_mset pickup_weight (mset nc)
      = image_mset pickup_weight outside + image_mset pickup_weight pending"
    unfolding sp(2) by simp
  moreover have "image_mset pickup_weight (mset ?pkgs)
      = image_mset pickup_weight served + image_mset pickup_weight pending
        + image_mset pickup_weight outside"
    unfolding sp(1) by simp
  ultimately have pairs: "mset (pick_pairs rt) + image_mset pickup_weight (mset nc)
            = image_mset pickup_weight (mset ?pkgs)"
    unfolding sp(3) by simp
  from single_van_weights [where vans = vans and ?pkgs0.0 = pkgs0] Inr r
  have weights: "mset (dropped_weights rt) + mset (map (\<lambda>p. snd (snd p)) nc)
            = mset (map (\<lambda>p. snd (snd p)) ?pkgs)"
    by simp
  from ex pairs weights show ?thesis unfolding Inr r by simp
qed

theorem single_van_partition_witness:
  "distinct (map fst (filter valid_package example_packages))
   \<and> find_optimal_route_for_single_van [(10, 10), (9, 8)] example_packages
       = Inr (Some (9, 8), 22, 176,
              [(0, ''start'', 0), (- 1, ''pick'', 4), (- 2, ''pick'', 3), (5, ''drop'', 4),
               (9, ''drop'', 3), (6, ''pick'', 9), (2, ''drop'', 9), (0, ''end'', 0)], [])
   \<and> mset (drop_pairs [(0, ''start'', 0), (- 1, ''pick'', 4), (- 2, ''pick'', 3),
               (5, ''drop'', 4), (9, ''drop'', 3), (6, ''pick'', 9), (2, ''drop'', 9),
               (0, ''end'', 0)])
       = image_mset delivery_weight (mset (filter valid_package example_packages))"
proof -
  let ?rt = "[(0, ''start'', 0), (- 1, ''pick'', 4), (- 2, ''pick'', 3), (5, ''drop'', 4),
               (9, ''drop'', 3), (6, ''pick'', 9), (2, ''drop'', 9), (0 :: int, ''end'', 0 :: int)]"
  have dis: "distinct (map fst (filter valid_package example_packages))" by code_simp
  have run: "find_optimal_route_for_single_van [(10, 10), (9, 8)] example_packages
       = Inr (Some (9, 8), 22, 176, ?rt, [])"
    by code_simp
  from single_van_partition [of example_packages "[(10, 10), (9, 8)]"] run dis
  obtain served pending outside where
    sp: "mset (filter valid_package example_packages) = served + pending + outside"
      "mset ([] :: package list) = outside + image_mset self_referential pending"
      "mset (drop_pairs ?rt) = image_mset delivery_weight served"
    by auto
  from sp(2) have "outside = {#}" "pending = {#}" by simp_all
  with sp(1,3) have "mset (drop_pairs ?rt)
      = image_mset delivery_weight (mset (filter valid_package example_packages))"
    by simp
  with dis run show ?thesis by (intro conjI)
qed

section \<open>Package window selector\<close>

text \<open>
  C4, as stated, fails on the tie-break. The heap holds pairs (distance, package) and
  Python compares them as tuples, so among packages at the same distance the smaller
  package tuple is popped first, whatever the order of the input. Of six packages,
  four at distance 0 and then (1, 2, 1) before (- 1, 2, 1), both at distance 1, the
  insertion order would keep (1, 2, 1); the router keeps (- 1, 2, 1) and records
  (1, 2, 1) as not completed.
\<close>

theorem window_tie_counterexample:
  "window_by_insertion tied_packages = [(0, 1, 1), (0, 2, 1), (0, 3, 1), (0, 4, 1), (1, 2, 1)]
   \<and> map_sum id packages (VanRouter (10, 10) tied_packages)
       = Inr [(0, 1, 1), (0, 2, 1), (0, 3, 1), (0, 4, 1), (- 1, 2, 1)]
   \<and> map_sum id not_completed (VanRouter (10, 10) tied_packages) = Inr [(1, 2, 1)]"
  by code_simp

text \<open>
  C4, amended. For every package list the router is built without an exception; its
  window is the first five packages (all of them when there are fewer) of the list in
  ascending order of the pair (distance of the pickup from the depot 0, package), so
  that ties in the distance are broken by the order of the package tuples (pickup,
  delivery, weight); the pending pickups are the (pickup, weight) pairs of the window,
  and the remaining packages are, as a multiset, the not-completed list. The order is
  ascending in the distance and a permutation of the input.
\<close>

theorem window_selection:
  "(case VanRouter van pkgs of
      Inl e \<Rightarrow> False
    | Inr st \<Rightarrow>
        packages st = take 5 (closest_first pkgs)
        \<and> mset (not_completed st) = mset (drop 5 (closest_first pkgs))
        \<and> length (packages st) = min 5 (length pkgs)
        \<and> pickups st = map (\<lambda>p. (fst p, snd (snd p))) (packages st))
   \<and> sorted (map (\<lambda>p. (distance 0 (fst p), p)) (closest_first pkgs))
   \<and> sorted (map (\<lambda>p. distance 0 (fst p)) (closest_first pkgs))
   \<and> mset (closest_first pkgs) = mset pkgs"
proof (intro conjI)
  let ?keyed = "map (\<lambda>p. (distance 0 (fst p), p)) pkgs"
  let ?n = "min 5 (length (heapify ?keyed))"
  have n: "?n = min 5 (length pkgs)" by (simp add: heapify_perm)
  have "?n \<le> length ?keyed" by (simp add: heapify_perm)
  from heapify_pops_sorted [OF this] obtain xs h' where
    run: "heappop_times ?n (heapify ?keyed) = Inr (xs, h')"
    and xs: "xs = take ?n (sort ?keyed)"
    and h': "mset h' = mset (drop ?n (sort ?keyed))"
    by blast
  have t: "take ?n (sort ?keyed) = take 5 (sort ?keyed)"
    unfolding n by (simp add: min_def)
  have d: "drop ?n (sort ?keyed) = drop 5 (sort ?keyed)"
    unfolding n by (simp add: min_def)
  have a: "map snd xs = take 5 (closest_first pkgs)"
    by (simp add: xs t closest_first_def take_map)
  have "image_mset snd (mset h') = image_mset snd (mset (drop 5 (sort ?keyed)))"
    by (simp add: h' d)
  then have b: "mset (map snd h') = mset (drop 5 (closest_first pkgs))"
    by (simp add: closest_first_def drop_map)
  have c: "length (map snd xs) = min 5 (length pkgs)"
    by (simp add: xs n)
  from run have "\<exists>st. VanRouter van pkgs = Inr st \<and> packages st = map snd xs
      \<and> not_completed st = map snd h'
      \<and> pickups st = map (\<lambda>p. (fst p, snd (snd p))) (packages st)"
    by (simp add: VanRouter_def Let_def)
  then obtain st where st: "VanRouter van pkgs = Inr st" "packages st = map snd xs"
    "not_completed st = map snd h'"
    "pickups st = map (\<lambda>p. (fst p, snd (snd p))) (packages st)"
    by blast
  from a b c have "packages st = take 5 (closest_first pkgs)"
    "mset (not_completed st) = mset (drop 5 (closest_first pkgs))"
    "length (packages st) = min 5 (length pkgs)"
    unfolding st(2,3) by simp_all
  with st(1,4) show "case VanRouter van pkgs of
      Inl e \<Rightarrow> False
    | Inr st \<Rightarrow>
        packages st = take 5 (closest_first pkgs)
        \<and> mset (not_completed st) = mset (drop 5 (closest_first pkgs))
        \<and> length (packages st) = min 5 (length pkgs)
        \<and> pickups st = map (\<lambda>p. (fst p, snd (snd p))) (packages st)"
    by simp
next
  show s: "sorted (map (\<lambda>p. (distance 0 (fst p), p)) (closest_first pkgs))"
    by (rule closest_first_sorted)
  have "sorted (map fst (map (\<lambda>p. (distance 0 (fst p), p)) (closest_first pkgs)))"
    using s by (rule sorted_map_fst_lex)
  then show "sorted (map (\<lambda>p. distance 0 (fst p)) (closest_first pkgs))"
    by (simp add: comp_def)
next
  show "mset (closest_first pkgs) = mset pkgs" by (rule closest_first_mset)
qed

section \<open>No van completes a pickup\<close>

text \<open>
  C5, as stated, fails when the filtered package list is empty: no attempt is made, so
  no attempt completes a pickup, and with a valid van the optimizer returns that van
  with the route from start to end instead of no van and the empty route.
\<close>

theorem no_pickup_counterexample:
  "filter_invalid_input [(10, 10)] [] = ([(10, 10)], [])
   \<and> map_sum id (\<lambda>r. picked_up_packages (snd r)) (attempt (10, 10) []) = Inr 0
   \<and> find_optimal_route_for_single_van [(10, 10)] []
       = Inr (Some (10, 10), 0, 0, [(0, ''start'', 0), (0, ''end'', 0)], [])
   \<and> find_optimal_route_for_single_van [(10, 10)] [] \<noteq> Inr (None, 0, 0, [], [])"
  by code_simp

text \<open>
  C5, amended. When at least one package passes the filter and no attempt of a valid
  van completes a pickup, the single-van optimizer returns no van, distance 0, fuel 0,
  the empty route and the filtered packages. In particular, for a single valid package
  that is heavier than the capacity of every van, it returns no van and the package
  as not completed.
\<close>

theorem no_pickup_result:
  "(filter valid_package pkgs0 \<noteq> []
    \<and> (\<forall>van \<in> set (filter valid_van vans).
          (case attempt van (filter valid_package pkgs0) of
             Inl e \<Rightarrow> True
           | Inr (res, st') \<Rightarrow> picked_up_packages st' = 0))
    \<longrightarrow> find_optimal_route_for_single_van vans pkgs0
          = Inr (None, 0, 0, [], filter valid_package pkgs0))
   \<and> (valid_package p \<and> (\<forall>van \<in> set vans. fst van < snd (snd p))
    \<longrightarrow> find_optimal_route_for_single_van vans [p] = Inr (None, 0, 0, [], [p]))"
proof (intro conjI impI)
  assume h: "filter valid_package pkgs0 \<noteq> []
    \<and> (\<forall>van \<in> set (filter valid_van vans).
          (case attempt van (filter valid_package pkgs0) of
             Inl e \<Rightarrow> True
           | Inr (res, st') \<Rightarrow> picked_up_packages st' = 0))"
  then have "try_vans (filter valid_van vans) (filter valid_package pkgs0) None = Inr None"
    by (intro try_vans_no_pickup) simp
  with h show "find_optimal_route_for_single_van vans pkgs0
          = Inr (None, 0, 0, [], filter valid_package pkgs0)"
    by (simp add: find_optimal_route_for_single_van_def filter_invalid_input_def)
next
  assume h: "valid_package p \<and> (\<forall>van \<in> set vans. fst van < snd (snd p))"
  have "\<forall>van \<in> set (filter valid_van vans).
          (case attempt van [p] of
             Inl e \<Rightarrow> True
           | Inr (res, st') \<Rightarrow> picked_up_packages st' = 0)"
  proof
    fix van assume "van \<in> set (filter valid_van vans)"
    with h have "fst van < snd (snd p)" by simp
    from attempt_too_heavy [OF this] show "case attempt van [p] of
             Inl e \<Rightarrow> True
           | Inr (res, st') \<Rightarrow> picked_up_packages st' = 0"
      by auto
  qed
  then have "try_vans (filter valid_van vans) [p] None = Inr None"
    by (rule try_vans_no_pickup)
  with h show "find_optimal_route_for_single_van vans [p] = Inr (None, 0, 0, [], [p])"
    by (simp add: find_optimal_route_for_single_van_def filter_invalid_input_def)
qed

theorem no_pickup_result_witness:
  "filter valid_package [(1, 2, 9), (4, 4, 1)] \<noteq> []
   \<and> list_all
         (\<lambda>van. case attempt van (filter valid_package [(1, 2, 9), (4, 4, 1)]) of
                  Inl e \<Rightarrow> True
                | Inr (res, st') \<Rightarrow> picked_up_packages st' = 0)
         (filter valid_van [(5, 1), (0, 3), (8, 2)])
   \<and> find_optimal_route_for_single_van [(5, 1), (0, 3), (8, 2)] [(1, 2, 9), (4, 4, 1)]
          = Inr (None, 0, 0, [], [(1, 2, 9)])
   \<and> valid_package (- 1, 5, 15)
   \<and> list_all (\<lambda>van. fst van < snd (snd (- 1 :: int, 5 :: int, 15 :: int))) [(10, 10)]
   \<and> find_optimal_route_for_single_van [(10, 10)] [(- 1, 5, 15)]
          = Inr (None, 0, 0, [], [(- 1, 5, 15)])"
proof -
  have a: "filter valid_package [(1, 2, 9), (4, 4, 1)] \<noteq> []" by code_simp
  have b: "\<forall>van \<in> set (filter valid_van [(5, 1), (0, 3), (8, 2)]).
          (case attempt van (filter valid_package [(1, 2, 9), (4, 4, 1)]) of
             Inl e \<Rightarrow> True
           | Inr (res, st') \<Rightarrow> picked_up_packages st' = 0)"
    by code_simp
  have c: "valid_package (- 1, 5, 15)" by code_simp
  have d: "\<forall>van \<in> set [(10 :: int, 10 :: int)]. fst van < snd (snd (- 1 :: int, 5 :: int, 15 :: int))"
    by simp
  have e: "filter valid_package [(1, 2, 9), (4, 4, 1)] = [(1, 2, 9)]" by code_simp
  from no_pickup_result [of "[(1, 2, 9), (4, 4, 1)]" "[(5, 1), (0, 3), (8, 2)]" "(- 1, 5, 15)"]
    no_pickup_result [of "[(1, 2, 9), (4, 4, 1)]" "[(10, 10)]" "(- 1, 5, 15)"]
    a b c d e
  show ?thesis by (simp add: list_all_iff)
qed

section \<open>A step without a valid move\<close>

lemma stuck_router_reached:
  "after_iterations 2 (projr (VanRouter (5, 1) [(1, 2, 3), (3, 4, 9)])) = Some stuck_router"
  by code_simp

text \<open>
  C6. When the loop guard holds (a pending list is non-empty, fewer than ten events) and
  the step finds no pickup that fits the capacity and no pending delivery, then
  \<open>construct_route\<close> returns at once: every pending pickup and delivery is appended to
  the not-completed list as a triple (loc, loc, weight), and the distance, the fuel and
  the route are the ones accumulated so far; no move (0, end, 0) is appended.
\<close>

theorem early_failure:
  assumes "active st"
    and "\<forall>(loc, weight) \<in> set (pickups st). \<not> current_load st + weight \<le> van_capacity st"
    and "deliveries st = []"
  shows "construct_route st =
           Inr ((total_distance st, total_fuel st, route st),
                st \<lparr> not_completed := not_completed st
                        @ map (\<lambda>(loc, weight). (loc, loc, weight)) (pickups st)
                        @ map (\<lambda>(loc, weight). (loc, loc, weight)) (deliveries st) \<rparr>)"
proof -
  from assms(2,3) have "find_nearest_valid_move st = Inr None"
    by (simp add: find_nearest_valid_move_None pickup_heap_Nil delivery_heap_Nil)
  with assms(1) show ?thesis
    by (simp add: construct_route.simps [of st] result_def give_up_def pending_def)
qed

theorem early_failure_witness:
  "active stuck_router
   \<and> list_all (\<lambda>(loc, weight).
         \<not> current_load stuck_router + weight \<le> van_capacity stuck_router)
       (pickups stuck_router)
   \<and> deliveries stuck_router = []
   \<and> construct_route stuck_router =
       Inr ((2, 2, [(0, ''start'', 0), (1, ''pick'', 3), (2, ''drop'', 3)]),
            stuck_router \<lparr> not_completed := [(3, 3, 9)] \<rparr>)"
proof -
  have a: "active stuck_router" by (simp add: active_def stuck_router_def)
  have b: "\<forall>(loc, weight) \<in> set (pickups stuck_router).
         \<not> current_load stuck_router + weight \<le> van_capacity stuck_router"
    by (simp add: stuck_router_def)
  have c: "deliveries stuck_router = []" by (simp add: stuck_router_def)
  from early_failure [OF a b c] a b c show ?thesis
    by (simp add: stuck_router_def)
qed

section \<open>Fuel identity\<close>


section \<open>Shortlist, iteration and early stop of the allocator\<close>

text \<open>
  C8. The shortlist of the multi-van allocator is the first three vans of the valid
  vans sorted by fuel per unit distance: the sort is ascending, a permutation, and
  stable (vans of equal fuel keep their input order). The loop runs over this
  shortlist with the filtered packages as the first pool; it never raises, and the
  function returns the vans used, the sums and the routes of its final state. One
  iteration with a non-empty pool runs the single-van optimizer restricted to the
  next van on the pool: when it selects the van, the van is appended to the vans used,
  its distance and fuel are added, its route is appended, its not-completed list is
  the pool of the next iteration, and the loop goes on with the rest of the
  shortlist; when it selects no van, the loop ends in the present state, whatever vans
  follow. With an empty pool the loop ends too. Hence the vans used are a prefix of
  the shortlist, one route each, and the first van not used met an empty pool or was
  not selected on the final pool. Every van used is one of the shortlist, at most
  three are used, and the pool a van leaves is never longer than the pool it was
  given.
\<close>

theorem shortlist_and_early_stop:
  "sorted (map snd (sort_key snd vs))
   \<and> mset (sort_key snd vs) = mset vs
   \<and> (\<forall>k. filter (\<lambda>v. snd v = k) (sort_key snd vs) = filter (\<lambda>v. snd v = k) vs)
   \<and> top_vans vs = take 3 (sort_key snd vs)
   \<and> multiple_vans_loop van_stats0 packages0
       = allocate (top_vans (filter valid_van van_stats0))
           \<lparr> vans_used = [], sum_distance = 0, sum_fuel = 0, routes = [],
             remaining_packages = filter valid_package packages0 \<rparr>
   \<and> (\<exists>final. multiple_vans_loop van_stats0 packages0 = Inr final
         \<and> find_optimal_route_for_multiple_vans van_stats0 packages0
             = Inr (vans_used final, sum_distance final, sum_fuel final, routes final))
   \<and> (\<forall>st'. multiple_vans_loop van_stats0 packages0 = Inr st' \<longrightarrow>
          set (vans_used st') \<subseteq> set (top_vans (filter valid_van van_stats0))
          \<and> length (vans_used st') \<le> 3)
   \<and> (\<forall>v pool chosen d f r pool'.
          find_optimal_route_for_single_van [v] pool = Inr (chosen, d, f, r, pool')
          \<longrightarrow> length pool' \<le> length pool)
   \<and> (\<forall>v rest s u d f r pool'.
          remaining_packages s \<noteq> []
          \<and> find_optimal_route_for_single_van [v] (remaining_packages s)
               = Inr (Some u, d, f, r, pool')
          \<longrightarrow> u = v
              \<and> allocate (v # rest) s
                  = allocate rest
                      (s \<lparr> vans_used := vans_used s @ [v],
                            sum_distance := sum_distance s + d,
                            sum_fuel := sum_fuel s + f,
                            routes := routes s @ [r],
                            remaining_packages := pool' \<rparr>))
   \<and> (\<forall>v rest s d f r pool'.
          remaining_packages s \<noteq> []
          \<and> find_optimal_route_for_single_van [v] (remaining_packages s)
               = Inr (None, d, f, r, pool')
          \<longrightarrow> allocate (v # rest) s = Inr s)
   \<and> (\<forall>ws s. remaining_packages s = [] \<longrightarrow> allocate ws s = Inr s)
   \<and> (\<forall>ws s s'. allocate ws s = Inr s' \<longrightarrow>
          (\<exists>k \<le> length ws. vans_used s' = vans_used s @ take k ws
             \<and> length (routes s') = length (routes s) + k
             \<and> (k < length ws \<longrightarrow>
                  remaining_packages s' = []
                  \<or> (\<exists>d f r nc. find_optimal_route_for_single_van [ws ! k]
                         (remaining_packages s') = Inr (None, d, f, r, nc)))))
   \<and> (allocate pre st = Inr st1 \<and> remaining_packages st1 \<noteq> []
        \<and> find_optimal_route_for_single_van [van] (remaining_packages st1)
             = Inr (None, dist, fuel, rt, nc)
      \<longrightarrow> allocate (pre @ van # post) st = Inr st1)"
proof (intro conjI allI impI)
  show "sorted (map snd (sort_key snd vs))" by (rule sorted_sort_key)
  show "mset (sort_key snd vs) = mset vs" by simp
  show "filter (\<lambda>v. snd v = k) (sort_key snd vs) = filter (\<lambda>v. snd v = k) vs" for k
    by (rule sort_key_stable)
  show "top_vans vs = take 3 (sort_key snd vs)" by (simp add: top_vans_def)
  show loop: "multiple_vans_loop van_stats0 packages0
       = allocate (top_vans (filter valid_van van_stats0))
           \<lparr> vans_used = [], sum_distance = 0, sum_fuel = 0, routes = [],
             remaining_packages = filter valid_package packages0 \<rparr>"
    by (simp add: multiple_vans_loop_def filter_invalid_input_def)
  obtain final where "multiple_vans_loop van_stats0 packages0 = Inr final"
    unfolding loop using allocate_Inr by blast
  then have "multiple_vans_loop van_stats0 packages0 = Inr final
         \<and> find_optimal_route_for_multiple_vans van_stats0 packages0
             = Inr (vans_used final, sum_distance final, sum_fuel final, routes final)"
    by (simp add: find_optimal_route_for_multiple_vans_def)
  then show "\<exists>final. multiple_vans_loop van_stats0 packages0 = Inr final
         \<and> find_optimal_route_for_multiple_vans van_stats0 packages0
             = Inr (vans_used final, sum_distance final, sum_fuel final, routes final)"
    by (rule exI)
next
  fix st' assume "multiple_vans_loop van_stats0 packages0 = Inr st'"
  then have "allocate (top_vans (filter valid_van van_stats0))
           \<lparr> vans_used = [], sum_distance = 0, sum_fuel = 0, routes = [],
             remaining_packages = filter valid_package packages0 \<rparr> = Inr st'"
    by (simp add: multiple_vans_loop_def filter_invalid_input_def)
  from allocate_vans_used [OF this] obtain us where
    us: "vans_used st' = us" "set us \<subseteq> set (top_vans (filter valid_van van_stats0))"
    "length us \<le> length (top_vans (filter valid_van van_stats0))"
    by auto
  then show "set (vans_used st') \<subseteq> set (top_vans (filter valid_van van_stats0))" by simp
  from us show "length (vans_used st') \<le> 3" by (simp add: top_vans_def)
next
  fix v pool chosen d f r pool'
  assume "find_optimal_route_for_single_van [v] pool = Inr (chosen, d, f, r, pool')"
  then show "length pool' \<le> length pool" by (rule single_van_pool_shrinks)
next
  fix v rest and s :: allocation and u d f r pool'
  assume h: "remaining_packages s \<noteq> []
          \<and> find_optimal_route_for_single_van [v] (remaining_packages s)
               = Inr (Some u, d, f, r, pool')"
  then have ne: "remaining_packages s \<noteq> []"
    and run: "find_optimal_route_for_single_van [v] (remaining_packages s)
               = Inr (Some u, d, f, r, pool')"
    by simp_all
  from allocate_used(1) [OF ne run] show "u = v" .
  from allocate_used(2) [OF ne run] show "allocate (v # rest) s
                  = allocate rest
                      (s \<lparr> vans_used := vans_used s @ [v],
                            sum_distance := sum_distance s + d,
                            sum_fuel := sum_fuel s + f,
                            routes := routes s @ [r],
                            remaining_packages := pool' \<rparr>)" .
next
  fix v rest and s :: allocation and d f r pool'
  assume "remaining_packages s \<noteq> []
          \<and> find_optimal_route_for_single_van [v] (remaining_packages s)
               = Inr (None, d, f, r, pool')"
  then show "allocate (v # rest) s = Inr s" by simp
next
  fix ws and s :: allocation assume "remaining_packages s = []"
  then show "allocate ws s = Inr s" by (rule allocate_empty_pool)
next
  fix ws s s' assume "allocate ws s = Inr s'"
  then show "\<exists>k \<le> length ws. vans_used s' = vans_used s @ take k ws
             \<and> length (routes s') = length (routes s) + k
             \<and> (k < length ws \<longrightarrow>
                  remaining_packages s' = []
                  \<or> (\<exists>d f r nc. find_optimal_route_for_single_van [ws ! k]
                         (remaining_packages s') = Inr (None, d, f, r, nc)))"
    by (rule allocate_prefix)
next
  assume "allocate pre st = Inr st1 \<and> remaining_packages st1 \<noteq> []
        \<and> find_optimal_route_for_single_van [van] (remaining_packages st1)
             = Inr (None, dist, fuel, rt, nc)"
  then show "allocate (pre @ van # post) st = Inr st1"
    by (intro allocate_stops) simp_all
qed

theorem shortlist_and_early_stop_witness:
  "top_vans (filter valid_van [(50, 3), (6, 2), (5, 1)]) = [(5, 1), (6, 2), (50, 3)]
   \<and> multiple_vans_loop [(50, 3), (6, 2), (5, 1)] crowd_packages = Inr crowd_served
   \<and> find_optimal_route_for_multiple_vans [(50, 3), (6, 2), (5, 1)] crowd_packages
       = Inr ([(5, 1)], 12, 12, [crowd_route])
   \<and> remaining_packages crowd_start \<noteq> []
   \<and> find_optimal_route_for_single_van [(5, 1)] (remaining_packages crowd_start)
       = Inr (Some (5, 1), 12, 12, crowd_route, [(10, 11, 40)])
   \<and> allocate ((5, 1) # [(6, 2), (50, 3)]) crowd_start
       = allocate [(6, 2), (50, 3)] crowd_served
   \<and> allocate [(5, 1)] crowd_start = Inr crowd_served
   \<and> remaining_packages crowd_served \<noteq> []
   \<and> find_optimal_route_for_single_van [(6, 2)] (remaining_packages crowd_served)
       = Inr (None, 0, 0, [], [(10, 11, 40)])
   \<and> find_optimal_route_for_single_van [(50, 3)] (remaining_packages crowd_served)
       = Inr (Some (50, 3), 22, 66,
              [(0, ''start'', 0), (10, ''pick'', 40), (11, ''drop'', 40), (0, ''end'', 0)], [])
   \<and> allocate ([(5, 1)] @ (6, 2) # [(50, 3)]) crowd_start = Inr crowd_served
   \<and> allocate [(6, 2), (50, 3)] crowd_served = Inr crowd_served
   \<and> vans_used crowd_served = vans_used crowd_start @ take 1 [(5, 1), (6, 2), (50, 3)]"
proof -
  have a: "top_vans (filter valid_van [(50, 3), (6, 2), (5, 1)]) = [(5, 1), (6, 2), (50, 3)]"
    by code_simp
  have b: "multiple_vans_loop [(50, 3), (6, 2), (5, 1)] crowd_packages = Inr crowd_served"
    by code_simp
  have c: "find_optimal_route_for_multiple_vans [(50, 3), (6, 2), (5, 1)] crowd_packages
       = Inr ([(5, 1)], 12, 12, [crowd_route])"
    by code_simp
  have d: "remaining_packages crowd_start \<noteq> []" by code_simp
  have e: "find_optimal_route_for_single_van [(5, 1)] (remaining_packages crowd_start)
       = Inr (Some (5, 1), 12, 12, crowd_route, [(10, 11, 40)])"
    by code_simp
  have f: "allocate [(5, 1)] crowd_start = Inr crowd_served" by code_simp
  have g: "remaining_packages crowd_served \<noteq> []" by code_simp
  have h: "find_optimal_route_for_single_van [(6, 2)] (remaining_packages crowd_served)
       = Inr (None, 0, 0, [], [(10, 11, 40)])"
    by code_simp
  have i: "find_optimal_route_for_single_van [(50, 3)] (remaining_packages crowd_served)
       = Inr (Some (50, 3), 22, 66,
              [(0, ''start'', 0), (10, ''pick'', 40), (11, ''drop'', 40), (0, ''end'', 0)], [])"
    by code_simp
  have upd: "crowd_start \<lparr> vans_used := vans_used crowd_start @ [(5, 1)],
                            sum_distance := sum_distance crowd_start + 12,
                            sum_fuel := sum_fuel crowd_start + 12,
                            routes := routes crowd_start @ [crowd_route],
                            remaining_packages := [(10, 11, 40)] \<rparr> = crowd_served"
    by (simp add: crowd_start_def crowd_served_def)
  note t = shortlist_and_early_stop [where vs = "[(50, 3), (6, 2), (5, 1)]"
      and ?van_stats0.0 = "[(50, 3), (6, 2), (5, 1)]" and ?packages0.0 = crowd_packages
      and pre = "[(5, 1)]" and st = crowd_start
      and ?st1.0 = crowd_served and van = "(6, 2)" and dist = 0 and fuel = 0
      and rt = "[]" and nc = "[(10, 11, 40)]" and post = "[(50, 3)]"]
  note used = t [THEN conjunct2, THEN conjunct2, THEN conjunct2, THEN conjunct2, THEN conjunct2, THEN conjunct2, THEN conjunct2, THEN conjunct2, THEN conjunct1, rule_format]
  note stop = t [THEN conjunct2, THEN conjunct2, THEN conjunct2, THEN conjunct2, THEN conjunct2, THEN conjunct2, THEN conjunct2, THEN conjunct2, THEN conjunct2, THEN conjunct1, rule_format]
  note early = t [THEN conjunct2, THEN conjunct2, THEN conjunct2, THEN conjunct2, THEN conjunct2, THEN conjunct2, THEN conjunct2, THEN conjunct2, THEN conjunct2, THEN conjunct2, THEN conjunct2, THEN conjunct2, rule_format]
  from used [of crowd_start "(5, 1)" "(5, 1)" 12 12 crowd_route "[(10, 11, 40)]" "[(6, 2), (50, 3)]"]
    d e
  have "allocate ((5, 1) # [(6, 2), (50, 3)]) crowd_start
       = allocate [(6, 2), (50, 3)]
           (crowd_start \<lparr> vans_used := vans_used crowd_start @ [(5, 1)],
                            sum_distance := sum_distance crowd_start + 12,
                            sum_fuel := sum_fuel crowd_start + 12,
                            routes := routes crowd_start @ [crowd_route],
                            remaining_packages := [(10, 11, 40)] \<rparr>)"
    by simp
  then have j: "allocate ((5, 1) # [(6, 2), (50, 3)]) crowd_start
       = allocate [(6, 2), (50, 3)] crowd_served"
    unfolding upd .
  from early f g h have k: "allocate ([(5, 1)] @ (6, 2) # [(50, 3)]) crowd_start = Inr crowd_served"
    by simp
  from stop [of crowd_served "(6, 2)" 0 0 "[]" "[(10, 11, 40)]" "[(50, 3)]"] g h
  have l: "allocate [(6, 2), (50, 3)] crowd_served = Inr crowd_served"
    by simp
  have m: "vans_used crowd_served = vans_used crowd_start @ take 1 [(5, 1), (6, 2), (50, 3)]"
    by (simp add: crowd_start_def crowd_served_def)
  from a b c d e j f g h i k l m show ?thesis by (intro conjI)
qed

section \<open>Termination and bounds\<close>

text \<open>
  C9. \<open>construct_route\<close> is a total function: its recursion is accepted with the
  measure ten minus the number of events. For every van and package list the router
  is built and \<open>construct_route\<close> returns a result; the window holds at most five
  packages; after \<open>n\<close> iterations of the loop the number of pickups plus deliveries
  is \<open>n\<close>, so \<open>n\<close> is at most ten, and the guard can only hold when \<open>n\<close> is below
  ten. Every iteration that applies a move increases the number of events by one.
\<close>

theorem construct_route_bounded:
  "(\<exists>st0 res. VanRouter van pkgs = Inr st0 \<and> construct_route st0 = Inr res
      \<and> length (packages st0) \<le> 5 \<and> length (pickups st0) \<le> 5
      \<and> (\<forall>n s. after_iterations n st0 = Some s \<longrightarrow>
             picked_up_packages s + delivered_packages s = n
             \<and> n \<le> 10 \<and> (active s \<longrightarrow> n < 10)))
   \<and> (\<forall>st mv st'. active st \<and> find_nearest_valid_move st = Inr (Some mv)
          \<and> apply_move st mv = Inr st' \<longrightarrow>
        picked_up_packages st' + delivered_packages st'
          = picked_up_packages st + delivered_packages st + 1)"
proof (intro conjI allI impI)
  obtain st0 where st0: "VanRouter van pkgs = Inr st0"
    "pickups st0 = map (\<lambda>p. (fst p, snd (snd p))) (packages st0)"
    "picked_up_packages st0 = 0" "delivered_packages st0 = 0"
    "length (packages st0) = min 5 (length pkgs)"
    using VanRouter_Inr [of van pkgs] by blast
  have "well_formed st0" by (force simp: well_formed_def st0(2))
  from construct_route_Inr [OF this] obtain res where
    run: "construct_route st0 = Inr res" by auto
  have "picked_up_packages s + delivered_packages s = n \<and> n \<le> 10 \<and> (active s \<longrightarrow> n < 10)"
    if it: "after_iterations n st0 = Some s" for n s
  proof -
    from after_iterations_count [OF it] st0(3,4)
    have c: "picked_up_packages s + delivered_packages s = n" by simp
    have "n \<le> 10"
    proof (cases n)
      case 0
      then show ?thesis by simp
    next
      case (Suc m)
      with it after_iterations_last [of m st0 s]
      obtain t where t: "after_iterations m st0 = Some t" "active t"
        by blast
      from after_iterations_count [OF t(1)] st0(3,4) t(2) Suc show ?thesis
        by (simp add: active_def)
    qed
    with c show ?thesis by (auto simp: active_def)
  qed
  with st0 run show "\<exists>st0 res. VanRouter van pkgs = Inr st0 \<and> construct_route st0 = Inr res
      \<and> length (packages st0) \<le> 5 \<and> length (pickups st0) \<le> 5
      \<and> (\<forall>n s. after_iterations n st0 = Some s \<longrightarrow>
             picked_up_packages s + delivered_packages s = n
             \<and> n \<le> 10 \<and> (active s \<longrightarrow> n < 10))"
    by (intro exI [of _ st0] exI [of _ res]) simp
next
  fix st mv st'
  assume "active st \<and> find_nearest_valid_move st = Inr (Some mv) \<and> apply_move st mv = Inr st'"
  then have "find_nearest_valid_move st = Inr (Some mv)" "apply_move st mv = Inr st'"
    by simp_all
  then show "picked_up_packages st' + delivered_packages st'
          = picked_up_packages st + delivered_packages st + 1"
    by (cases rule: loop_step_cases) simp_all
qed

theorem construct_route_bounded_witness:
  "VanRouter (9, 8) example_packages = Inr example_router
   \<and> (\<exists>res. construct_route example_router = Inr res)
   \<and> after_iterations 6 example_router = Some (the (after_iterations 6 example_router))
   \<and> picked_up_packages (the (after_iterations 6 example_router))
       + delivered_packages (the (after_iterations 6 example_router)) = 6
   \<and> (6 :: nat) \<le> 10
   \<and> active example_router
   \<and> find_nearest_valid_move example_router = Inr (Some (1, - 1, ''pick'', 4))
   \<and> apply_move example_router (1, - 1, ''pick'', 4)
       = Inr (projr (apply_move example_router (1, - 1, ''pick'', 4)))
   \<and> picked_up_packages (projr (apply_move example_router (1, - 1, ''pick'', 4)))
       + delivered_packages (projr (apply_move example_router (1, - 1, ''pick'', 4)))
       = picked_up_packages example_router + delivered_packages example_router + 1"
proof -
  have init: "VanRouter (9, 8) example_packages = Inr example_router" by code_simp
  have six: "after_iterations 6 example_router = Some (the (after_iterations 6 example_router))"
    by code_simp
  have act: "active example_router" by code_simp
  have mv: "find_nearest_valid_move example_router = Inr (Some (1, - 1, ''pick'', 4))"
    by code_simp
  have ap: "apply_move example_router (1, - 1, ''pick'', 4)
       = Inr (projr (apply_move example_router (1, - 1, ''pick'', 4)))"
    by code_simp
  from construct_route_bounded [of "(9, 8)" example_packages] init six act mv ap
  show ?thesis by auto
qed

section \<open>The load is the weight in transit\<close>

text \<open>
  C10. For packages that pass the input filter, after any number of iterations of the
  loop of \<open>construct_route\<close> the current load is the sum of the weights in the list of
  pending deliveries; it is never negative, and it is zero exactly when that list is
  empty.
\<close>

theorem load_is_pending_weight:
  assumes "\<forall>p \<in> set pkgs. valid_package p"
    and "VanRouter van pkgs = Inr st0"
    and "after_iterations n st0 = Some s"
  shows "current_load s = sum_list (map snd (deliveries s))
         \<and> 0 \<le> current_load s
         \<and> (current_load s = 0 \<longleftrightarrow> deliveries s = [])"
proof -
  let ?I = "\<lambda>s. positive_weights s \<and> current_load s = sum_list (map snd (deliveries s))"
  have "?I st0"
    using positive_weights_init [OF assms(1,2)] VanRouter_window_subset [OF assms(2)]
    by simp
  with assms(3) have "?I s"
  proof (rule after_iterations_invariant)
    fix s mv s'
    assume inv: "?I s" and step: "find_nearest_valid_move s = Inr (Some mv)"
      "apply_move s mv = Inr s'"
    from step have "current_load s' = sum_list (map snd (deliveries s'))"
    proof (cases rule: loop_step_cases)
      case (pick d l w dl)
      with inv show ?thesis by simp
    next
      case (drop d l w)
      from sum_list_map_remove1 [OF drop(2), of snd] inv drop(4) show ?thesis by simp
    qed
    with positive_weights_step [OF _ step] inv show "?I s'" by simp
  qed
  then have "\<forall>x \<in> set (deliveries s). 0 < snd x"
    and "current_load s = sum_list (map snd (deliveries s))"
    by (simp_all add: positive_weights_def)
  with sum_list_pos_weights [of "deliveries s"] show ?thesis by simp
qed

theorem load_is_pending_weight_witness:
  "list_all valid_package example_packages
   \<and> VanRouter (9, 8) example_packages = Inr example_router
   \<and> after_iterations 2 example_router = Some (the (after_iterations 2 example_router))
   \<and> deliveries (the (after_iterations 2 example_router)) = [(5, 4), (9, 3)]
   \<and> current_load (the (after_iterations 2 example_router)) = 7"
proof -
  have v: "\<forall>p \<in> set example_packages. valid_package p"
    by (simp add: example_packages_def valid_package_def)
  have init: "VanRouter (9, 8) example_packages = Inr example_router" by code_simp
  have two: "after_iterations 2 example_router = Some (the (after_iterations 2 example_router))"
    by code_simp
  have d: "deliveries (the (after_iterations 2 example_router)) = [(5, 4), (9, 3)]"
    by code_simp
  from load_is_pending_weight [OF v init two] v init two d show ?thesis
    by (simp add: list_all_iff)
qed

end
